theory Spec2Isabelle
  imports Main
begin

section \<open>Data model of hfsm.c\<close>

text \<open>
  Pointers to the statically declared descriptors are addresses; a nullable pointer is an
  \<open>option\<close>. The descriptors themselves (\<open>const struct fsm_state\<close>) are immutable
  and are looked up in an environment \<open>env\<close> from addresses to descriptors. The
  header hfsm.h is not among the sources: the structures have the fields that hfsm.c
  reads and writes.
\<close>

type_synonym state_ptr = nat
type_synonym event_ptr = nat
type_synonym var_ptr = nat
type_synonym data_ptr = nat
type_synonym fn_ptr = nat

definition NEST_MAX :: nat where
  "NEST_MAX = 5"

definition state_start :: state_ptr where
  "state_start = 0"

definition state_end :: state_ptr where
  "state_end = 1"

definition event_null :: event_ptr where
  "event_null = 0"

text \<open>\<open>struct fsm_state_variable\<close>: the mutable side-state of a state.\<close>

record fsm_state_variable =
  parent :: "state_ptr option"
  history :: "state_ptr option"
  data :: "data_ptr option"

text \<open>\<open>struct fsm_state\<close>: name, the three optional callbacks, the optional variable.\<close>

record fsm_state =
  name :: string
  entry :: "fn_ptr option"
  exec :: "fn_ptr option"
  exit :: "fn_ptr option"
  variable :: "var_ptr option"

type_synonym env = "state_ptr \<Rightarrow> fsm_state"

text \<open>
  A guard receives the machine only. \<open>struct fsm\<close> is private to hfsm.c, so what a
  guard can read of the machine is its current state: the guard is a predicate on it.
\<close>

record fsm_cond =
  cond_name :: string
  cond_func :: "state_ptr \<Rightarrow> bool"

record fsm_action =
  action_name :: string
  action_func :: fn_ptr

text \<open>
  \<open>struct fsm_trans\<close>. The table is the list of rows before the sentinel row (the one
  whose \<open>from\<close> is NULL), so \<open>from\<close> is never NULL in a row of the list.
\<close>

record fsm_trans =
  from_st :: state_ptr
  event :: event_ptr
  cond :: "fsm_cond option"
  action :: "fsm_action option"
  to_st :: "state_ptr option"

text \<open>\<open>struct fsm_rels\<close>, again the rows before the sentinel.\<close>

record fsm_rels =
  oneself :: state_ptr
  rel_parent :: "state_ptr option"
  is_default :: bool

text \<open>
  Modelled from the spec: the bounded stack of the container library (stack_init,
  stack_clear, stack_push, stack_pop, stack_release are not in hfsm.c). "A bounded stack
  (push, pop returning remaining depth or an empty-sentinel, clear, fixed capacity known
  at creation)": a push on a full stack stores nothing, a pop on an empty stack returns
  the sentinel -1 and leaves the caller's variable as it was (\<open>None\<close> below). hfsm.c
  counts on both readings of the pop: its entry loop ends on a negative count and then
  reads \<open>dest_state\<close>, the state popped last, and its lock-step loop sets both variables
  to NULL before each pair of pops so as to find NULL after a pop that failed.
\<close>

record STACK =
  capacity :: nat
  items :: "state_ptr list"

definition stack_init :: "nat \<Rightarrow> STACK" where
  "stack_init n = \<lparr>capacity = n, items = []\<rparr>"

definition stack_clear :: "STACK \<Rightarrow> STACK" where
  "stack_clear s = s\<lparr>items := []\<rparr>"

definition stack_push :: "STACK \<Rightarrow> state_ptr \<Rightarrow> STACK" where
  "stack_push s x = (if length (items s) < capacity s then s\<lparr>items := x # items s\<rparr> else s)"

definition stack_pop :: "STACK \<Rightarrow> int \<times> state_ptr option \<times> STACK" where
  "stack_pop s = (case items s of
       [] \<Rightarrow> (- 1, None, s)
     | x # xs \<Rightarrow> (int (length xs), Some x, s\<lparr>items := xs\<rparr>))"

text \<open>\<open>struct fsm\<close>.\<close>

record fsm =
  current :: state_ptr
  corresps :: "fsm_trans list"
  src_ancestors :: STACK
  dest_ancestors :: STACK

text \<open>
  The state variables live outside the machine. \<open>null_obj\<close> is the function-local static
  of \<open>get_state_variable\<close>; \<open>var v\<close> is the variable at address \<open>v\<close>.
\<close>

datatype var_ref = null_obj | var var_ptr

type_synonym var_store = "var_ref \<Rightarrow> fsm_state_variable"

text \<open>
  The callbacks (entry, exit, do-activity, action) are code of the integrator. The model
  records each call, with the arguments it is given, in a trace, and takes the callback
  to leave the machine and the state variables alone (the engine is not re-entrant).
\<close>

datatype call =
    Call_entry state_ptr "data_ptr option" bool
  | Call_exit state_ptr "data_ptr option" bool
  | Call_exec state_ptr "data_ptr option"
  | Call_action fn_ptr

record world =
  machine :: fsm
  vars :: var_store
  trace :: "call list"

text \<open>
  The assertions are compiled in (NDEBUG is not defined): a failed \<open>assert\<close> aborts the
  process. A NULL dereference is fatal as well. A failed assertion carries the world as
  it stands when the assertion is evaluated: the callbacks called and the variables
  written so far, and the current state of the machine.
\<close>

datatype abort = Assert_dest_state world | Assert_src_state world | Null_deref

text \<open>
  A world holds the callbacks of the machine, so two aborts are not compared by
  evaluation; they are compared through \<open>observe_abort\<close> below.
\<close>

declare abort.eq.simps [code del]

section \<open>The engine\<close>

definition get_state_variable :: "env \<Rightarrow> state_ptr \<Rightarrow> var_ref" where
  "get_state_variable env state =
     (case variable (env state) of Some v \<Rightarrow> var v | None \<Rightarrow> null_obj)"

definition entry_if_can_be :: "env \<Rightarrow> world \<Rightarrow> state_ptr \<Rightarrow> bool \<Rightarrow> world" where
  "entry_if_can_be env w state cmpl =
     (case entry (env state) of
        Some f \<Rightarrow> w\<lparr>trace := trace w @
                     [Call_entry state (data (vars w (get_state_variable env state))) cmpl]\<rparr>
      | None \<Rightarrow> w)"

definition exec_if_can_be :: "env \<Rightarrow> world \<Rightarrow> world" where
  "exec_if_can_be env w =
     (let state = current (machine w) in
      case exec (env state) of
        Some f \<Rightarrow> w\<lparr>trace := trace w @
                     [Call_exec state (data (vars w (get_state_variable env state)))]\<rparr>
      | None \<Rightarrow> w)"

definition set_history :: "env \<Rightarrow> var_store \<Rightarrow> state_ptr \<Rightarrow> state_ptr \<Rightarrow> var_store" where
  "set_history env vs owner h =
     vs(get_state_variable env owner :=
          (vs (get_state_variable env owner))\<lparr>history := Some h\<rparr>)"

definition set_parent :: "env \<Rightarrow> var_store \<Rightarrow> state_ptr \<Rightarrow> state_ptr option \<Rightarrow> var_store" where
  "set_parent env vs s p =
     vs(get_state_variable env s := (vs (get_state_variable env s))\<lparr>parent := p\<rparr>)"

definition exit_if_can_be :: "env \<Rightarrow> world \<Rightarrow> state_ptr \<Rightarrow> bool \<Rightarrow> world" where
  "exit_if_can_be env w state cmpl =
     (let par = parent (vars w (get_state_variable env state));
          w1 = (case exit (env state) of
                  Some f \<Rightarrow> w\<lparr>trace := trace w @
                     [Call_exit state (data (vars w (get_state_variable env state))) cmpl]\<rparr>
                | None \<Rightarrow> w)
      in case par of
           Some p \<Rightarrow> w1\<lparr>vars := set_history env (vars w1) p state\<rparr>
         | None \<Rightarrow> w1)"

text \<open>
  The two loops that push a state and its ancestors, leaf first. With a cyclic parent
  relation the loop of the source never ends: the result is \<open>None\<close>.
\<close>

partial_function (option) push_ancestors ::
  "env \<Rightarrow> var_store \<Rightarrow> state_ptr option \<Rightarrow> STACK \<Rightarrow> STACK option" where
  "push_ancestors env vs st stk =
     (case st of
        None \<Rightarrow> Some stk
      | Some s \<Rightarrow> push_ancestors env vs (parent (vs (get_state_variable env s))) (stack_push stk s))"

declare push_ancestors.simps [code]

text \<open>
  The do-while loop that pops both stacks in lock-step while the popped pointers are
  equal. Both variables are reset to NULL before each pair of pops, so on two empty
  stacks the loop goes on for ever.
\<close>

partial_function (option) lca_loop ::
  "STACK \<Rightarrow> STACK \<Rightarrow> (state_ptr option \<times> state_ptr option \<times> int \<times> STACK \<times> STACK) option" where
  "lca_loop src_ancs dest_ancs =
     (case stack_pop src_ancs of (c1, src_state, src_ancs') \<Rightarrow>
      case stack_pop dest_ancs of (count, dest_state, dest_ancs') \<Rightarrow>
        if src_state = dest_state then lca_loop src_ancs' dest_ancs'
        else Some (src_state, dest_state, count, src_ancs', dest_ancs'))"

declare lca_loop.simps [code]

text \<open>The exit cascade, from the current state up to (not including) the ancestor.\<close>

partial_function (option) exit_loop ::
  "env \<Rightarrow> world \<Rightarrow> state_ptr option \<Rightarrow> state_ptr option \<Rightarrow> (abort + world) option" where
  "exit_loop env w src_state ancestor =
     (if src_state = ancestor then Some (Inr w)
      else case src_state of
             None \<Rightarrow> Some (Inl (Assert_src_state w))
           | Some s \<Rightarrow>
               (let w1 = exit_if_can_be env w s
                           (parent (vars w (get_state_variable env s)) = ancestor)
                in exit_loop env w1 (parent (vars w1 (get_state_variable env s))) ancestor))"

declare exit_loop.simps [code]

text \<open>The entry cascade: a do-while loop over the rest of the destination stack.\<close>

function entry_loop ::
  "env \<Rightarrow> world \<Rightarrow> state_ptr \<Rightarrow> int \<Rightarrow> STACK \<Rightarrow> world \<times> state_ptr \<times> STACK" where
  "entry_loop env w dest_state count dest_ancs =
     (let w1 = entry_if_can_be env w dest_state (count = 0) in
      case stack_pop dest_ancs of (count', popped, dest_ancs') \<Rightarrow>
        (let dest_state' = (case popped of Some x \<Rightarrow> x | None \<Rightarrow> dest_state) in
         if count' \<ge> 0 then entry_loop env w1 dest_state' count' dest_ancs'
         else (w1, dest_state', dest_ancs')))"
  by pat_completeness auto
termination
  by (relation "measure (\<lambda>(env, w, d, c, stk). length (items stk))")
     (auto simp: stack_pop_def split: list.splits)

declare entry_loop.simps [simp del]

text \<open>
  \<open>fsm_change_state\<close> without its two ends: everything between the self-transition test
  and the history continuation. It returns the world and the last \<open>dest_state\<close>.
\<close>

definition change_state_cascade ::
  "env \<Rightarrow> world \<Rightarrow> state_ptr \<Rightarrow> (abort + world \<times> state_ptr) option" where
  "change_state_cascade env w new_state =
     (case push_ancestors env (vars w) (Some (current (machine w)))
             (stack_clear (src_ancestors (machine w))) of
        None \<Rightarrow> None
      | Some src_ancs \<Rightarrow>
     (case push_ancestors env (vars w) (Some new_state)
             (stack_clear (dest_ancestors (machine w))) of
        None \<Rightarrow> None
      | Some dest_ancs \<Rightarrow>
     (case lca_loop src_ancs dest_ancs of
        None \<Rightarrow> None
      | Some (src_state, dest_state, count, src_ancs', dest_ancs') \<Rightarrow>
     (case dest_state of
        None \<Rightarrow>
          Some (Inl (Assert_dest_state
                       (w\<lparr>machine := (machine w)\<lparr>src_ancestors := src_ancs',
                                                  dest_ancestors := dest_ancs'\<rparr>\<rparr>)))
      | Some d \<Rightarrow>
         (let ancestor = (case src_state of
                            Some s \<Rightarrow> parent (vars w (get_state_variable env s))
                          | None \<Rightarrow> Some (current (machine w)))
          in case exit_loop env w (Some (current (machine w))) ancestor of
               None \<Rightarrow> None
             | Some (Inl a) \<Rightarrow> Some (Inl a)
             | Some (Inr w2) \<Rightarrow>
                 (let w3 = w2\<lparr>machine := (machine w2)\<lparr>current := new_state\<rparr>\<rparr> in
                  case entry_loop env w3 d count dest_ancs' of (w4, d', dest_ancs'') \<Rightarrow>
                    Some (Inr (w4\<lparr>machine := (machine w4)\<lparr>src_ancestors := src_ancs',
                                                         dest_ancestors := dest_ancs''\<rparr>\<rparr>,
                               d'))))))))"

partial_function (option) fsm_change_state ::
  "env \<Rightarrow> world \<Rightarrow> state_ptr \<Rightarrow> (abort + world) option" where
  "fsm_change_state env w new_state =
     (if current (machine w) = new_state then
        Some (Inr (entry_if_can_be env
                     (exit_if_can_be env w (current (machine w)) True) new_state True))
      else case change_state_cascade env w new_state of
             None \<Rightarrow> None
           | Some (Inl a) \<Rightarrow> Some (Inl a)
           | Some (Inr (w', dest_state)) \<Rightarrow>
               (case history (vars w' (get_state_variable env dest_state)) of
                  Some h \<Rightarrow> fsm_change_state env w' h
                | None \<Rightarrow> Some (Inr w')))"

declare fsm_change_state.simps [code]

text \<open>
  \<open>fsm_state_transit\<close>: the scan of the table. The rows are those before the sentinel;
  the result carries the boolean the source returns. The DEBUG lines only print.
\<close>

fun transit_loop ::
  "env \<Rightarrow> world \<Rightarrow> fsm_trans list \<Rightarrow> state_ptr \<Rightarrow> event_ptr \<Rightarrow> (abort + world \<times> bool) option" where
  "transit_loop env w [] state ev = Some (Inr (w, False))"
| "transit_loop env w (corr # rest) state ev =
     (if from_st corr = state \<and> event corr = ev then
        (if (case cond corr of None \<Rightarrow> True | Some c \<Rightarrow> cond_func c (current (machine w))) then
           (let w1 = (case action corr of
                        Some a \<Rightarrow> w\<lparr>trace := trace w @ [Call_action (action_func a)]\<rparr>
                      | None \<Rightarrow> w)
            in case to_st corr of
                 Some t \<Rightarrow>
                   (case fsm_change_state env w1 t of
                      None \<Rightarrow> None
                    | Some (Inl a) \<Rightarrow> Some (Inl a)
                    | Some (Inr w2) \<Rightarrow> Some (Inr (w2, True)))
               | None \<Rightarrow> Some (Inr (w1, True)))
         else transit_loop env w rest state ev)
      else transit_loop env w rest state ev)"

definition fsm_state_transit ::
  "env \<Rightarrow> world \<Rightarrow> state_ptr \<Rightarrow> event_ptr \<Rightarrow> (abort + world \<times> bool) option" where
  "fsm_state_transit env w state ev = transit_loop env w (corresps (machine w)) state ev"

text \<open>The bubbling loop of \<open>fsm_transition\<close>.\<close>

partial_function (option) bubble_loop ::
  "env \<Rightarrow> world \<Rightarrow> state_ptr option \<Rightarrow> event_ptr \<Rightarrow> (abort + world) option" where
  "bubble_loop env w state ev =
     (case state of
        None \<Rightarrow> Some (Inr w)
      | Some s \<Rightarrow>
          (case fsm_state_transit env w s ev of
             None \<Rightarrow> None
           | Some (Inl a) \<Rightarrow> Some (Inl a)
           | Some (Inr (w', matched)) \<Rightarrow>
               if matched then Some (Inr w')
               else bubble_loop env w' (parent (vars w' (get_state_variable env s))) ev))"

declare bubble_loop.simps [code]

text \<open>
  \<open>fsm_transition\<close>. A NULL machine is \<open>None\<close>: the call returns at once and touches
  nothing, and so does a NULL event.
\<close>

definition fsm_transition ::
  "env \<Rightarrow> world option \<Rightarrow> event_ptr option \<Rightarrow> (abort + world option) option" where
  "fsm_transition env mach ev =
     (case (mach, ev) of
        (Some w, Some e) \<Rightarrow>
          (case bubble_loop env w (Some (current (machine w))) e of
             None \<Rightarrow> None
           | Some (Inl a) \<Rightarrow> Some (Inl a)
           | Some (Inr w1) \<Rightarrow>
               (case fsm_state_transit env w1 (current (machine w1)) event_null of
                  None \<Rightarrow> None
                | Some (Inl a) \<Rightarrow> Some (Inl a)
                | Some (Inr (w2, b)) \<Rightarrow> Some (Inr (Some w2))))
      | _ \<Rightarrow> Some (Inr mach))"

definition fsm_update :: "env \<Rightarrow> world option \<Rightarrow> world option" where
  "fsm_update env mach = map_option (exec_if_can_be env) mach"

text \<open>
  \<open>fsm_init\<close>. The three allocations (malloc and the two stack_init) succeed or fail as
  \<open>alloc\<close> says; the outcome lists what is still allocated at the return, what the
  function stored in errno, and the machine it returns (\<open>None\<close> for NULL).
\<close>

datatype errno = EINVAL

datatype resource = Machine_mem | Src_stack | Dest_stack

record alloc =
  machine_ok :: bool
  src_ok :: bool
  dest_ok :: bool

record init_outcome =
  returned :: "world option"
  errno_set :: "errno option"
  live :: "resource list"

definition release :: "resource \<Rightarrow> resource list \<Rightarrow> resource list" where
  "release r rs = removeAll r rs"

fun apply_rels :: "env \<Rightarrow> var_store \<Rightarrow> fsm_rels list \<Rightarrow> abort + var_store" where
  "apply_rels env vs [] = Inr vs"
| "apply_rels env vs (r # rs) =
     (let vs1 = set_parent env vs (oneself r) (rel_parent r) in
      if is_default r then
        (case rel_parent r of
           None \<Rightarrow> Inl Null_deref
         | Some p \<Rightarrow> apply_rels env (set_history env vs1 p (oneself r)) rs)
      else apply_rels env vs1 rs)"

definition fsm_init ::
  "env \<Rightarrow> fsm_rels list option \<Rightarrow> fsm_trans list option \<Rightarrow> alloc \<Rightarrow> var_store \<Rightarrow> call list
     \<Rightarrow> (abort + init_outcome) option" where
  "fsm_init env rels table al vs tr =
     (case table of
        None \<Rightarrow> Some (Inr \<lparr>returned = None, errno_set = Some EINVAL, live = []\<rparr>)
      | Some corr \<Rightarrow>
          (let allocated = (if machine_ok al then [Machine_mem] else []) @
                           (if src_ok al then [Src_stack] else []) @
                           (if dest_ok al then [Dest_stack] else [])
           in if \<not> machine_ok al \<or> \<not> src_ok al \<or> \<not> dest_ok al then
                Some (Inr \<lparr>returned = None, errno_set = None,
                           live = release Machine_mem (release Src_stack
                                    (release Dest_stack allocated))\<rparr>)
              else
                (let m = \<lparr>current = state_start, corresps = corr,
                          src_ancestors = stack_init NEST_MAX,
                          dest_ancestors = stack_init NEST_MAX\<rparr>
                 in case (case rels of None \<Rightarrow> Inr vs | Some rs \<Rightarrow> apply_rels env vs rs) of
                      Inl a \<Rightarrow> Some (Inl a)
                    | Inr vs' \<Rightarrow>
                        (case fsm_state_transit env \<lparr>machine = m, vars = vs', trace = tr\<rparr>
                                (current m) event_null of
                           None \<Rightarrow> None
                         | Some (Inl a) \<Rightarrow> Some (Inl a)
                         | Some (Inr (w', b)) \<Rightarrow>
                             Some (Inr \<lparr>returned = Some w', errno_set = None,
                                        live = allocated\<rparr>)))))"

text \<open>\<open>fsm_get_state_data\<close>: the data pointer, and what the call stored in errno.\<close>

definition fsm_get_state_data ::
  "env \<Rightarrow> var_store \<Rightarrow> state_ptr option \<Rightarrow> data_ptr option \<times> errno option" where
  "fsm_get_state_data env vs state =
     (case state of
        None \<Rightarrow> (None, Some EINVAL)
      | Some s \<Rightarrow> (data (vs (get_state_variable env s)), None))"

section \<open>Notions of the specification\<close>

text \<open>
  The chain of a state: the state, its parent, the parent's parent, up to the root, if
  that takes at most \<open>n\<close> states; \<open>None\<close> when the chain is longer (or cyclic).
\<close>

fun ancestor_chain :: "nat \<Rightarrow> env \<Rightarrow> var_store \<Rightarrow> state_ptr option \<Rightarrow> state_ptr list option" where
  "ancestor_chain n env vs None = Some []"
| "ancestor_chain 0 env vs (Some s) = None"
| "ancestor_chain (Suc n) env vs (Some s) =
     map_option ((#) s) (ancestor_chain n env vs (parent (vs (get_state_variable env s))))"

text \<open>The parent relation is acyclic with nesting depth at most \<open>NEST_MAX\<close>.\<close>

definition well_nested :: "env \<Rightarrow> var_store \<Rightarrow> bool" where
  "well_nested env vs = (\<forall>s. ancestor_chain NEST_MAX env vs (Some s) \<noteq> None)"

text \<open>Every recorded history is a child of the state that owns it.\<close>

definition history_children :: "env \<Rightarrow> var_store \<Rightarrow> bool" where
  "history_children env vs =
     (\<forall>s h. history (vs (get_state_variable env s)) = Some h \<longrightarrow>
            parent (vs (get_state_variable env h)) = Some s)"

text \<open>The state reached from \<open>s\<close> by following recorded histories, at most \<open>n\<close> of them.\<close>

fun history_leaf :: "nat \<Rightarrow> env \<Rightarrow> var_store \<Rightarrow> state_ptr \<Rightarrow> state_ptr" where
  "history_leaf 0 env vs s = s"
| "history_leaf (Suc n) env vs s =
     (case history (vs (get_state_variable env s)) of
        None \<Rightarrow> s
      | Some h \<Rightarrow> history_leaf n env vs h)"

text \<open>
  \<open>fsm_change_state\<close> with its recursion cut at depth \<open>n\<close>: \<open>n\<close> calls of the function, the
  first one included, are allowed, and \<open>None\<close> says that they were not enough.
\<close>

fun change_state_within :: "nat \<Rightarrow> env \<Rightarrow> world \<Rightarrow> state_ptr \<Rightarrow> (abort + world) option" where
  "change_state_within 0 env w new_state = None"
| "change_state_within (Suc n) env w new_state =
     (if current (machine w) = new_state then
        Some (Inr (entry_if_can_be env
                     (exit_if_can_be env w (current (machine w)) True) new_state True))
      else case change_state_cascade env w new_state of
             None \<Rightarrow> None
           | Some (Inl a) \<Rightarrow> Some (Inl a)
           | Some (Inr (w', dest_state)) \<Rightarrow>
               (case history (vars w' (get_state_variable env dest_state)) of
                  Some h \<Rightarrow> change_state_within n env w' h
                | None \<Rightarrow> Some (Inr w')))"

text \<open>
  A row fires for a state and an event when its \<open>from\<close> and its \<open>event\<close> are those and
  its guard, if it has one, accepts.
\<close>

definition row_fires :: "world \<Rightarrow> state_ptr \<Rightarrow> event_ptr \<Rightarrow> fsm_trans \<Rightarrow> bool" where
  "row_fires w state ev corr =
     (from_st corr = state \<and> event corr = ev \<and>
      (case cond corr of None \<Rightarrow> True | Some c \<Rightarrow> cond_func c (current (machine w))))"

text \<open>Taking a row: its action, then the state change to its destination, if any.\<close>

definition perform_row :: "env \<Rightarrow> world \<Rightarrow> fsm_trans \<Rightarrow> (abort + world \<times> bool) option" where
  "perform_row env w corr =
     (let w1 = (case action corr of
                  Some a \<Rightarrow> w\<lparr>trace := trace w @ [Call_action (action_func a)]\<rparr>
                | None \<Rightarrow> w)
      in case to_st corr of
           Some t \<Rightarrow>
             (case fsm_change_state env w1 t of
                None \<Rightarrow> None
              | Some (Inl a) \<Rightarrow> Some (Inl a)
              | Some (Inr w2) \<Rightarrow> Some (Inr (w2, True)))
         | None \<Rightarrow> Some (Inr (w1, True)))"

definition drop_flag :: "(abort + world \<times> bool) option \<Rightarrow> (abort + world) option" where
  "drop_flag r = map_option (map_sum id fst) r"

definition keep_machine :: "(abort + world \<times> bool) option \<Rightarrow> (abort + world option) option" where
  "keep_machine r = map_option (map_sum id (map_option fst \<circ> Some)) r"

text \<open>
  One dispatch of the null event at the current state of the world a computation ends
  in: the first row of that state that fires for the null event is taken, and no other.
\<close>

definition null_pass :: "env \<Rightarrow> (abort + world) option \<Rightarrow> (abort + world option) option" where
  "null_pass env r =
     (case r of
        None \<Rightarrow> None
      | Some (Inl a) \<Rightarrow> Some (Inl a)
      | Some (Inr w1) \<Rightarrow>
          (case find (row_fires w1 (current (machine w1)) event_null) (corresps (machine w1)) of
             None \<Rightarrow> Some (Inr (Some w1))
           | Some corr \<Rightarrow> keep_machine (perform_row env w1 corr)))"

text \<open>The machine as \<open>fsm_init\<close> sets it up, before the dispatch of the null event.\<close>

definition start_world :: "fsm_trans list \<Rightarrow> var_store \<Rightarrow> call list \<Rightarrow> world" where
  "start_world tab vs tr =
     \<lparr>machine = \<lparr>current = state_start, corresps = tab,
                  src_ancestors = stack_init NEST_MAX, dest_ancestors = stack_init NEST_MAX\<rparr>,
      vars = vs, trace = tr\<rparr>"

text \<open>What a successful \<open>fsm_init\<close> hands back: the machine, all three allocations live.\<close>

definition success_outcome :: "world \<Rightarrow> init_outcome" where
  "success_outcome w =
     \<lparr>returned = Some w, errno_set = None, live = [Machine_mem, Src_stack, Dest_stack]\<rparr>"

text \<open>What a test sees of a machine: its current state and the calls made so far.\<close>

definition observe :: "world \<Rightarrow> state_ptr \<times> call list" where
  "observe w = (current (machine w), trace w)"

text \<open>The same of an abort: which check failed, in which state, after which calls.\<close>

datatype abort_seen =
    Dest_state_null "state_ptr \<times> call list"
  | Src_state_null "state_ptr \<times> call list"
  | Null_dereferenced

fun observe_abort :: "abort \<Rightarrow> abort_seen" where
  "observe_abort (Assert_dest_state w) = Dest_state_null (observe w)"
| "observe_abort (Assert_src_state w) = Src_state_null (observe w)"
| "observe_abort Null_deref = Null_dereferenced"

text \<open>
  The chain of a state as a relation, with no bound on its length: it holds of a state
  and a list when following the parent links from the state gives the list and ends at
  a root.
\<close>

inductive parent_chain :: "env \<Rightarrow> var_store \<Rightarrow> state_ptr option \<Rightarrow> state_ptr list \<Rightarrow> bool"
  for env :: env and vs :: var_store where
    chain_root: "parent_chain env vs None []"
  | chain_step: "parent_chain env vs (parent (vs (get_state_variable env s))) ys \<Longrightarrow>
                 parent_chain env vs (Some s) (s # ys)"

text \<open>The scratch stacks of the machine have the capacity \<open>fsm_init\<close> creates them with.\<close>

definition stacks_ok :: "fsm \<Rightarrow> bool" where
  "stacks_ok m = (capacity (src_ancestors m) = NEST_MAX \<and> capacity (dest_ancestors m) = NEST_MAX)"

definition top_of :: "state_ptr list \<Rightarrow> state_ptr option" where
  "top_of xs = (case xs of [] \<Rightarrow> None | q # qs \<Rightarrow> Some q)"

text \<open>
  The exit cascade over a list of states, innermost first; the flag of a state says
  whether its parent is the common ancestor \<open>anc\<close>.
\<close>

fun exit_states :: "env \<Rightarrow> world \<Rightarrow> state_ptr list \<Rightarrow> state_ptr option \<Rightarrow> world" where
  "exit_states env w [] anc = w"
| "exit_states env w (x # xs) anc =
     exit_states env
       (exit_if_can_be env w x (parent (vars w (get_state_variable env x)) = anc)) xs anc"

text \<open>The entry cascade over a list of states, outermost first; the flag is set for the last.\<close>

fun enter_states :: "env \<Rightarrow> world \<Rightarrow> state_ptr list \<Rightarrow> world" where
  "enter_states env w [] = w"
| "enter_states env w (x # xs) = enter_states env (entry_if_can_be env w x (xs = [])) xs"

text \<open>
  The world after a cascade that exits the states \<open>ex\<close> and enters the states \<open>en\<close>
  (both listed innermost first) on the way to \<open>t\<close>.
\<close>

definition cascade_result ::
  "env \<Rightarrow> world \<Rightarrow> state_ptr \<Rightarrow> state_ptr list \<Rightarrow> state_ptr list \<Rightarrow> state_ptr option \<Rightarrow> world" where
  "cascade_result env w t ex en anc =
     (let w2 = exit_states env w ex anc;
          w3 = w2\<lparr>machine := (machine w2)\<lparr>current := t\<rparr>\<rparr>;
          w4 = enter_states env w3 (rev en)
      in w4\<lparr>machine := (machine w4)
             \<lparr>src_ancestors := (src_ancestors (machine w))\<lparr>items := rev (butlast ex)\<rparr>,
              dest_ancestors := (dest_ancestors (machine w))\<lparr>items := []\<rparr>\<rparr>\<rparr>)"

text \<open>
  Every recorded history is a child of some state that has the owner's variable. This
  is what \<open>history_children\<close> turns into once an exit has written a history through a
  variable that several states share.
\<close>

definition history_below :: "env \<Rightarrow> var_store \<Rightarrow> bool" where
  "history_below env vs =
     (\<forall>s h. history (vs (get_state_variable env s)) = Some h \<longrightarrow>
        (\<exists>p. parent (vs (get_state_variable env h)) = Some p \<and>
             get_state_variable env p = get_state_variable env s))"

text \<open>The nesting depth of a state: the length of its chain (a root has depth 1).\<close>

definition depth :: "env \<Rightarrow> var_store \<Rightarrow> state_ptr \<Rightarrow> nat" where
  "depth env vs s =
     (case ancestor_chain NEST_MAX env vs (Some s) of None \<Rightarrow> 0 | Some xs \<Rightarrow> length xs)"

text \<open>
  The history continuation as a step: the call of \<open>fsm_change_state\<close> for the world and
  target \<open>c\<close> is not a self-transition, its cascade comes back with the world of \<open>c'\<close>,
  and the history recorded at the last \<open>dest_state\<close> is the target of \<open>c'\<close>, for which
  the function calls itself.
\<close>

definition recursive_call :: "env \<Rightarrow> world \<times> state_ptr \<Rightarrow> world \<times> state_ptr \<Rightarrow> bool" where
  "recursive_call env c c' =
     (current (machine (fst c)) \<noteq> snd c \<and>
      (\<exists>d. change_state_cascade env (fst c) (snd c) = Some (Inr (fst c', d)) \<and>
           history (vars (fst c') (get_state_variable env d)) = Some (snd c')))"

section \<open>An example configuration\<close>

text \<open>
  The engine's own states \<open>start\<close> and \<open>end\<close> have a name and nothing else: no
  callback and no variable. Every other state \<open>s\<close> owns the variable at address \<open>s\<close>
  and has an entry and an exit callback. All variables start out empty.
\<close>

definition ex_env :: env where
  "ex_env = (\<lambda>s. \<lparr>name = (if s = 0 then ''start'' else if s = 1 then ''end'' else ''state''),
                   entry = (if s < 2 then None else Some s), exec = None,
                   exit = (if s < 2 then None else Some s),
                   variable = (if s < 2 then None else Some s)\<rparr>)"

definition ex_vars :: var_store where
  "ex_vars = (\<lambda>v. \<lparr>parent = None, history = None, data = None\<rparr>)"

definition ex_machine :: "fsm_trans list \<Rightarrow> state_ptr \<Rightarrow> fsm" where
  "ex_machine tab c = \<lparr>current = c, corresps = tab,
      src_ancestors = stack_init NEST_MAX, dest_ancestors = stack_init NEST_MAX\<rparr>"

text \<open>State 3 is a child of state 2, and state 6 a child of state 3.\<close>

definition ex_nested :: var_store where
  "ex_nested = set_parent ex_env (set_parent ex_env ex_vars 3 (Some 2)) 6 (Some 3)"

text \<open>The relation rows that give \<open>ex_nested\<close>, with state 3 the default child of 2.\<close>

definition ex_rels :: "fsm_rels list" where
  "ex_rels =
     [\<lparr>oneself = 3, rel_parent = Some 2, is_default = True\<rparr>,
      \<lparr>oneself = 6, rel_parent = Some 3, is_default = False\<rparr>]"

definition ex_seeded :: var_store where
  "ex_seeded =
     set_parent ex_env (set_history ex_env (set_parent ex_env ex_vars 3 (Some 2)) 2 3) 6 (Some 3)"

definition all_ok :: alloc where
  "all_ok = \<lparr>machine_ok = True, src_ok = True, dest_ok = True\<rparr>"

definition no_stack :: alloc where
  "no_stack = \<lparr>machine_ok = True, src_ok = True, dest_ok = False\<rparr>"

text \<open>A guard that rejects, and a table with two rows for state 4 and event 1.\<close>

definition never :: fsm_cond where
  "never = \<lparr>cond_name = ''never'', cond_func = (\<lambda>c. False)\<rparr>"

definition ex_guarded :: "fsm_trans list" where
  "ex_guarded =
     [\<lparr>from_st = 4, event = 1, cond = Some never, action = None, to_st = Some 5\<rparr>,
      \<lparr>from_st = 4, event = 1, cond = None,
       action = Some \<lparr>action_name = ''act'', action_func = 9\<rparr>, to_st = Some 2\<rparr>]"

text \<open>Two completion transitions in a row: from \<open>start\<close> to 4, and from 4 to 5.\<close>

definition ex_chained :: "fsm_trans list" where
  "ex_chained =
     [\<lparr>from_st = state_start, event = event_null, cond = None, action = None, to_st = Some 4\<rparr>,
      \<lparr>from_st = 4, event = event_null, cond = None, action = None, to_st = Some 5\<rparr>]"

text \<open>One completion transition out of \<open>start\<close>.\<close>

definition ex_boot :: "fsm_trans list" where
  "ex_boot =
     [\<lparr>from_st = state_start, event = event_null, cond = None, action = None, to_st = Some 4\<rparr>]"

text \<open>The composite state 2 handles event 1; its child 3 handles nothing.\<close>

definition ex_composite :: "fsm_trans list" where
  "ex_composite =
     [\<lparr>from_st = 2, event = 1, cond = None, action = None, to_st = Some 4\<rparr>]"

text \<open>The machine in state 3, the child of the composite state 2.\<close>

definition ex_inner :: world where
  "ex_inner = \<lparr>machine = ex_machine ex_composite 3, vars = ex_nested, trace = []\<rparr>"

text \<open>The seeded variables with state 6 recorded as the history of state 3.\<close>

definition ex_history :: var_store where
  "ex_history = set_history ex_env ex_seeded 3 6"

text \<open>The machine in the top-level state 4, outside the composite state 2.\<close>

definition ex_outside :: world where
  "ex_outside = \<lparr>machine = ex_machine [] 4, vars = ex_history, trace = []\<rparr>"

text \<open>Relation rows with two default children: they give \<open>ex_history\<close>.\<close>

definition ex_defaults :: "fsm_rels list" where
  "ex_defaults =
     [\<lparr>oneself = 3, rel_parent = Some 2, is_default = True\<rparr>,
      \<lparr>oneself = 6, rel_parent = Some 3, is_default = True\<rparr>]"

text \<open>The machine with these histories in state 6, and in the composite state 2 itself.\<close>

definition ex_below :: world where
  "ex_below = \<lparr>machine = ex_machine [] 6, vars = ex_history, trace = []\<rparr>"

definition ex_on_composite :: world where
  "ex_on_composite = \<lparr>machine = ex_machine [] 2, vars = ex_history, trace = []\<rparr>"

text \<open>The machine in state 6, two levels below state 2.\<close>

definition ex_deep :: world where
  "ex_deep = \<lparr>machine = ex_machine [] 6, vars = ex_nested, trace = []\<rparr>"

section \<open>State-variable access\<close>

lemma get_state_variable_simps:
  "variable (env s) = Some v \<Longrightarrow> get_state_variable env s = var v"
  "variable (env s) = None \<Longrightarrow> get_state_variable env s = null_obj"
  by (simp_all add: get_state_variable_def)

text \<open>
  C7. \<open>get_state_variable\<close> returns a \<open>var_ref\<close>, which has no absent value. For a state
  with a variable it is that variable; for every state without one it is \<open>null_obj\<close>, so
  two such states resolve to the same variable, and a history or a parent written
  through one of them is read through the other.
\<close>

theorem get_state_variable_shared:
  "(variable (env s) = Some v \<longrightarrow> get_state_variable env s = var v) \<and>
   (variable (env s1) = None \<and> variable (env s2) = None \<longrightarrow>
      get_state_variable env s1 = null_obj \<and>
      get_state_variable env s2 = get_state_variable env s1 \<and>
      history (set_history env vs s1 h (get_state_variable env s2)) = Some h \<and>
      parent (set_parent env vs s1 p (get_state_variable env s2)) = p)"
  by (simp add: get_state_variable_simps set_history_def set_parent_def)

theorem get_state_variable_shared_witness:
  "get_state_variable ex_env 2 = var 2 \<and>
   get_state_variable ex_env state_end = get_state_variable ex_env state_start \<and>
   history (set_history ex_env ex_vars state_start 7 (get_state_variable ex_env state_end)) = Some 7 \<and>
   parent (set_parent ex_env ex_vars state_start (Some 7) (get_state_variable ex_env state_end)) = Some 7"
  using get_state_variable_shared [of ex_env 2 2 state_start state_end ex_vars 7 "Some 7"]
  by (simp add: ex_env_def state_start_def state_end_def get_state_variable_def)

section \<open>Exit and the history of the parent\<close>

text \<open>
  C5. When the exited state has a parent, \<open>exit_if_can_be\<close> leaves the parent's history
  at that state, whether the state has an exit callback (then the call is the one new
  entry of the trace) or not (then the trace is as before). The self-transition, which
  exits the current state alone, does so too.
\<close>

theorem exit_if_can_be_records_history:
  assumes "parent (vars w (get_state_variable env s)) = Some p"
  shows "history (vars (exit_if_can_be env w s cmpl) (get_state_variable env p)) = Some s \<and>
         trace (exit_if_can_be env w s cmpl) =
           trace w @ (case exit (env s) of
                        Some f \<Rightarrow> [Call_exit s (data (vars w (get_state_variable env s))) cmpl]
                      | None \<Rightarrow> []) \<and>
         (current (machine w) = s \<longrightarrow>
            (\<exists>w'. fsm_change_state env w s = Some (Inr w') \<and>
                  history (vars w' (get_state_variable env p)) = Some s))"
  using assms
  by (subst fsm_change_state.simps)
     (auto simp: exit_if_can_be_def entry_if_can_be_def set_history_def Let_def
           split: option.splits)

theorem exit_if_can_be_records_history_witness:
  "history (vars (exit_if_can_be ex_env
                    \<lparr>machine = ex_machine [] 3, vars = ex_nested, trace = []\<rparr> 3 True)
              (get_state_variable ex_env 2)) = Some 3 \<and>
   trace (exit_if_can_be ex_env
            \<lparr>machine = ex_machine [] 3, vars = ex_nested, trace = []\<rparr> 3 True) =
      [Call_exit 3 None True] \<and>
   (\<exists>w'. fsm_change_state ex_env
            \<lparr>machine = ex_machine [] 3, vars = ex_nested, trace = []\<rparr> 3 = Some (Inr w') \<and>
         history (vars w' (get_state_variable ex_env 2)) = Some 3)"
  using exit_if_can_be_records_history
          [of "\<lparr>machine = ex_machine [] 3, vars = ex_nested, trace = []\<rparr>" ex_env 3 2 True]
  by (simp add: ex_env_def ex_nested_def ex_vars_def ex_machine_def get_state_variable_def
                set_parent_def)

section \<open>Event dispatch\<close>

lemma transit_loop_find:
  "transit_loop env w rows state ev =
     (case find (row_fires w state ev) rows of
        None \<Rightarrow> Some (Inr (w, False))
      | Some corr \<Rightarrow> perform_row env w corr)"
  by (induction rows) (simp_all add: row_fires_def perform_row_def)

text \<open>
  C2, as the code has it. A matching row whose guard rejects does not end the scan:
  \<open>fsm_state_transit\<close> takes the first row whose \<open>from\<close> and \<open>event\<close> match and whose
  guard accepts or is absent, and reports failure only when the table has no such row.
\<close>

theorem fsm_state_transit_first_accepting:
  "fsm_state_transit env w state ev =
     (case find (row_fires w state ev) (corresps (machine w)) of
        None \<Rightarrow> Some (Inr (w, False))
      | Some corr \<Rightarrow> perform_row env w corr)"
  by (simp add: fsm_state_transit_def transit_loop_find)

text \<open>
  C2 as stated fails. The first row for state 4 and event 1 has a guard that rejects;
  the dispatch goes on to the second row, runs its action, changes to its destination
  and reports success.
\<close>

theorem fsm_state_transit_scans_past_rejected:
  "from_st (hd ex_guarded) = 4 \<and> event (hd ex_guarded) = 1 \<and>
   \<not> row_fires \<lparr>machine = ex_machine ex_guarded 4, vars = ex_vars, trace = []\<rparr> 4 1
        (hd ex_guarded) \<and>
   map_option (map_sum id (map_prod observe id))
     (fsm_state_transit ex_env
        \<lparr>machine = ex_machine ex_guarded 4, vars = ex_vars, trace = []\<rparr> 4 1) =
   Some (Inr ((2, [Call_action 9, Call_exit 4 None True, Call_entry 2 None True]), True))"
  by code_simp

lemma ancestor_chain_Some_cases:
  "ancestor_chain n env vs (Some s) = Some xs \<Longrightarrow>
     \<exists>m ys. n = Suc m \<and> xs = s # ys \<and>
            ancestor_chain m env vs (parent (vs (get_state_variable env s))) = Some ys"
  by (cases n) auto

lemma perform_row_matched:
  "perform_row env w corr = Some (Inr (w', b)) \<Longrightarrow> b"
  by (auto simp: perform_row_def Let_def split: option.splits sum.splits)

lemma bubble_loop_unmatched:
  "ancestor_chain n env (vars w) so = Some xs \<Longrightarrow>
   \<forall>s\<in>set xs. find (row_fires w s e) (corresps (machine w)) = None \<Longrightarrow>
   bubble_loop env w so e = Some (Inr w)"
proof (induction n arbitrary: so xs)
  case 0
  then show ?case
    by (cases so) (simp_all add: bubble_loop.simps)
next
  case (Suc n)
  show ?case
  proof (cases so)
    case None
    then show ?thesis by (simp add: bubble_loop.simps)
  next
    case (Some s)
    with Suc.prems(1) obtain ys where xs: "xs = s # ys"
      and ys: "ancestor_chain n env (vars w) (parent (vars w (get_state_variable env s))) = Some ys"
      by auto
    from Suc.prems(2) xs have no: "find (row_fires w s e) (corresps (machine w)) = None"
      and rest: "\<forall>s\<in>set ys. find (row_fires w s e) (corresps (machine w)) = None"
      by simp_all
    have "bubble_loop env w (parent (vars w (get_state_variable env s))) e = Some (Inr w)"
      by (rule Suc.IH [OF ys rest])
    then show ?thesis
      using Some no
      by (subst bubble_loop.simps) (simp add: fsm_state_transit_def transit_loop_find)
  qed
qed

lemma bubble_loop_matched:
  "ancestor_chain n env (vars w) so = Some (pre @ N # post) \<Longrightarrow>
   \<forall>s\<in>set pre. find (row_fires w s e) (corresps (machine w)) = None \<Longrightarrow>
   find (row_fires w N e) (corresps (machine w)) = Some corr \<Longrightarrow>
   bubble_loop env w so e = drop_flag (perform_row env w corr)"
proof (induction pre arbitrary: n so)
  case Nil
  then obtain s where so: "so = Some s" by (cases so) auto
  with Nil.prems(1) have "s = N"
    using ancestor_chain_Some_cases by fastforce
  with so Nil.prems(3) show ?case
    by (subst bubble_loop.simps)
       (auto simp: fsm_state_transit_def transit_loop_find drop_flag_def
             split: option.splits sum.splits dest: perform_row_matched)
next
  case (Cons a pre)
  then obtain s where so: "so = Some s" by (cases so) auto
  with Cons.prems(1) obtain m where sa: "s = a"
    and ch: "ancestor_chain m env (vars w) (parent (vars w (get_state_variable env s))) =
               Some (pre @ N # post)"
    using ancestor_chain_Some_cases by fastforce
  from Cons.prems(2) have no: "find (row_fires w a e) (corresps (machine w)) = None"
    and rest: "\<forall>s\<in>set pre. find (row_fires w s e) (corresps (machine w)) = None"
    by simp_all
  have "bubble_loop env w (parent (vars w (get_state_variable env s))) e =
          drop_flag (perform_row env w corr)"
    by (rule Cons.IH [OF ch rest Cons.prems(3)])
  then show ?case
    using so sa no
    by (subst bubble_loop.simps) (simp add: fsm_state_transit_def transit_loop_find)
qed

lemma fsm_transition_null_pass:
  "fsm_transition env (Some w) (Some e) =
     null_pass env (bubble_loop env w (Some (current (machine w))) e)"
  by (auto simp: fsm_transition_def null_pass_def keep_machine_def fsm_state_transit_def
                 transit_loop_find split: option.splits sum.splits)

lemma fsm_init_null_pass:
  "machine_ok al \<Longrightarrow> src_ok al \<Longrightarrow> dest_ok al \<Longrightarrow>
   (case rels of None \<Rightarrow> Inr vs | Some rs \<Rightarrow> apply_rels env vs rs) = Inr vs' \<Longrightarrow>
   map_option (map_sum id returned) (fsm_init env rels (Some tab) al vs tr) =
     null_pass env (Some (Inr (start_world tab vs' tr)))"
  by (auto simp: fsm_init_def null_pass_def keep_machine_def fsm_state_transit_def Let_def
                 start_world_def transit_loop_find split: option.splits sum.splits)

text \<open>
  C3, as the code has it. A call of \<open>fsm_transition\<close> with a machine and an event is the
  bubbling pass followed by one dispatch of the null event at the state the pass ends
  in, whatever the pass matched; a successful \<open>fsm_init\<close> ends with one such dispatch at
  \<open>start\<close>. So a null-event row of the state the machine is in at that moment fires with
  no external event. The state that this dispatch itself enters gets no dispatch of its
  own in the same call (\<open>null_pass\<close> takes one row).
\<close>

theorem null_dispatch_after_fire_and_init:
  "fsm_transition env (Some w) (Some e) =
     null_pass env (bubble_loop env w (Some (current (machine w))) e) \<and>
   (machine_ok al \<and> src_ok al \<and> dest_ok al \<and>
    (case rels of None \<Rightarrow> Inr vs | Some rs \<Rightarrow> apply_rels env vs rs) = Inr vs' \<longrightarrow>
      map_option (map_sum id returned) (fsm_init env rels (Some tab) al vs tr) =
        null_pass env (Some (Inr (start_world tab vs' tr))))"
  by (simp add: fsm_transition_null_pass fsm_init_null_pass)

theorem null_dispatch_after_fire_and_init_witness:
  "fsm_transition ex_env
     (Some \<lparr>machine = ex_machine ex_chained 4, vars = ex_vars, trace = []\<rparr>) (Some 7) =
     null_pass ex_env
       (bubble_loop ex_env \<lparr>machine = ex_machine ex_chained 4, vars = ex_vars, trace = []\<rparr>
          (Some 4) 7) \<and>
   map_option (map_sum id returned)
     (fsm_init ex_env (Some ex_rels) (Some ex_chained) all_ok ex_vars []) =
     null_pass ex_env (Some (Inr (start_world ex_chained ex_seeded [])))"
  using null_dispatch_after_fire_and_init
          [where env = ex_env and e = 7 and al = all_ok and rels = "Some ex_rels"
             and vs = ex_vars and vs' = ex_seeded and tab = ex_chained and tr = "[]"
             and w = "\<lparr>machine = ex_machine ex_chained 4, vars = ex_vars, trace = []\<rparr>"]
  by (simp add: all_ok_def ex_machine_def ex_rels_def ex_seeded_def)

text \<open>
  C3 as stated fails in its last part. State 4 has a null-event row to state 5 with no
  guard; construction enters state 4 through the null-event row of \<open>start\<close> and returns
  with the machine in state 4, state 5 never entered.
\<close>

theorem null_dispatch_not_chained:
  "map_option (map_sum id (map_option observe \<circ> returned))
     (fsm_init ex_env None (Some ex_chained) all_ok ex_vars []) =
   Some (Inr (Some (4, [Call_entry 4 None True])))"
  by code_simp

text \<open>
  C6, as the code has it. Let the current state have a chain of ancestors \<open>xs\<close>. If no
  row fires for the event at the states of the chain below \<open>N\<close> and \<open>corr\<close> is the first
  row that fires at \<open>N\<close>, the call takes that row of \<open>N\<close> (and then dispatches the null
  event once). If no row fires for the event anywhere on the chain, the bubbling pass
  leaves the machine as it was, and the call is the one dispatch of the null event at
  the current state: the current state stays when no null-event row fires there.
\<close>

theorem fsm_transition_bubbles:
  assumes "ancestor_chain n env (vars w) (Some (current (machine w))) = Some xs"
  shows "(xs = pre @ N # post \<and>
          (\<forall>s\<in>set pre. find (row_fires w s e) (corresps (machine w)) = None) \<and>
          find (row_fires w N e) (corresps (machine w)) = Some corr \<longrightarrow>
            fsm_transition env (Some w) (Some e) =
              null_pass env (drop_flag (perform_row env w corr))) \<and>
         ((\<forall>s\<in>set xs. find (row_fires w s e) (corresps (machine w)) = None) \<longrightarrow>
            bubble_loop env w (Some (current (machine w))) e = Some (Inr w) \<and>
            fsm_transition env (Some w) (Some e) = null_pass env (Some (Inr w)) \<and>
            (find (row_fires w (current (machine w)) event_null) (corresps (machine w)) = None \<longrightarrow>
               fsm_transition env (Some w) (Some e) = Some (Inr (Some w))))"
  using assms bubble_loop_matched [of n env w "Some (current (machine w))" pre N post e corr]
        bubble_loop_unmatched [of n env w "Some (current (machine w))" xs e]
  by (auto simp: fsm_transition_null_pass null_pass_def)

theorem fsm_transition_bubbles_witness:
  "fsm_transition ex_env (Some ex_inner) (Some 1) =
     null_pass ex_env (drop_flag (perform_row ex_env ex_inner (hd ex_composite))) \<and>
   bubble_loop ex_env ex_inner (Some (current (machine ex_inner))) 7 = Some (Inr ex_inner) \<and>
   fsm_transition ex_env (Some ex_inner) (Some 7) = Some (Inr (Some ex_inner))"
proof -
  have chain: "ancestor_chain NEST_MAX ex_env (vars ex_inner) (Some (current (machine ex_inner))) =
                 Some [3, 2]"
    by code_simp
  have at_parent: "[3, 2] = [3] @ 2 # [] \<and>
      (\<forall>s\<in>set [3]. find (row_fires ex_inner s 1) (corresps (machine ex_inner)) = None) \<and>
      find (row_fires ex_inner 2 1) (corresps (machine ex_inner)) = Some (hd ex_composite)"
    by (simp add: ex_inner_def ex_machine_def ex_composite_def row_fires_def)
  have nowhere: "\<forall>s\<in>set [3, 2]. find (row_fires ex_inner s 7) (corresps (machine ex_inner)) = None"
    by (simp add: ex_inner_def ex_machine_def ex_composite_def row_fires_def)
  have quiet: "find (row_fires ex_inner (current (machine ex_inner)) event_null)
                 (corresps (machine ex_inner)) = None"
    by (simp add: ex_inner_def ex_machine_def ex_composite_def row_fires_def)
  show ?thesis
    using at_parent nowhere quiet
      fsm_transition_bubbles [OF chain, where pre = "[3]" and N = 2 and post = "[]" and e = 1
         and corr = "hd ex_composite"]
      fsm_transition_bubbles [OF chain, where e = 7]
    by blast
qed

text \<open>
  C6 as stated fails in its second part. Event 7 is matched nowhere, yet the call moves
  the machine from state 4 to state 5: the dispatch of the null event that ends every
  call finds the null-event row of state 4.
\<close>

theorem unmatched_event_moves_machine:
  "map_option (map_sum id (map_option observe))
     (fsm_transition ex_env
        (Some \<lparr>machine = ex_machine ex_chained 4, vars = ex_vars, trace = []\<rparr>) (Some 7)) =
   Some (Inr (Some (5, [Call_exit 4 None True, Call_entry 5 None True])))"
  by code_simp

section \<open>Construction\<close>

text \<open>
  C8, as the code has it. Without a transition table \<open>fsm_init\<close> returns NULL with errno
  EINVAL and allocates nothing. When one of the three allocations fails it returns NULL
  with nothing left allocated. Otherwise the machine is set to \<open>start\<close>, the relation
  rows are applied, the null event is dispatched at \<open>start\<close>, and what this dispatch
  leaves is returned with the three allocations live; the returned machine is in
  \<open>start\<close>, untouched, when no null-event row of \<open>start\<close> fires.
\<close>

theorem fsm_init_outcomes:
  "fsm_init env rels None al vs tr =
     Some (Inr \<lparr>returned = None, errno_set = Some EINVAL, live = []\<rparr>) \<and>
   (\<not> (machine_ok al \<and> src_ok al \<and> dest_ok al) \<longrightarrow>
      fsm_init env rels (Some tab) al vs tr =
        Some (Inr \<lparr>returned = None, errno_set = None, live = []\<rparr>)) \<and>
   (machine_ok al \<and> src_ok al \<and> dest_ok al \<and>
    (case rels of None \<Rightarrow> Inr vs | Some rs \<Rightarrow> apply_rels env vs rs) = Inr vs' \<longrightarrow>
      fsm_init env rels (Some tab) al vs tr =
        map_option (map_sum id (success_outcome \<circ> fst))
          (fsm_state_transit env (start_world tab vs' tr) state_start event_null) \<and>
      (find (row_fires (start_world tab vs' tr) state_start event_null) tab = None \<longrightarrow>
         fsm_init env rels (Some tab) al vs tr =
           Some (Inr (success_outcome (start_world tab vs' tr)))))"
  by (auto simp: fsm_init_def release_def Let_def start_world_def fsm_state_transit_def
                 success_outcome_def transit_loop_find split: option.splits sum.splits)

theorem fsm_init_outcomes_witness:
  "fsm_init ex_env (Some ex_rels) None no_stack ex_vars [] =
     Some (Inr \<lparr>returned = None, errno_set = Some EINVAL, live = []\<rparr>) \<and>
   fsm_init ex_env (Some ex_rels) (Some ex_composite) no_stack ex_vars [] =
     Some (Inr \<lparr>returned = None, errno_set = None, live = []\<rparr>) \<and>
   fsm_init ex_env (Some ex_rels) (Some ex_composite) all_ok ex_vars [] =
     Some (Inr (success_outcome (start_world ex_composite ex_seeded [])))"
proof -
  have failed: "\<not> (machine_ok no_stack \<and> src_ok no_stack \<and> dest_ok no_stack)"
    by (simp add: no_stack_def)
  have fine: "machine_ok all_ok \<and> src_ok all_ok \<and> dest_ok all_ok \<and>
      (case Some ex_rels of None \<Rightarrow> Inr ex_vars | Some rs \<Rightarrow> apply_rels ex_env ex_vars rs) =
        Inr ex_seeded"
    by (simp add: all_ok_def ex_rels_def ex_seeded_def)
  have quiet: "find (row_fires (start_world ex_composite ex_seeded []) state_start event_null)
                 ex_composite = None"
    by (simp add: ex_composite_def row_fires_def state_start_def)
  show ?thesis
    using failed fine quiet
      fsm_init_outcomes [where env = ex_env and rels = "Some ex_rels" and al = no_stack
         and vs = ex_vars and tr = "[]" and tab = ex_composite and vs' = ex_seeded]
      fsm_init_outcomes [where env = ex_env and rels = "Some ex_rels" and al = all_ok
         and vs = ex_vars and tr = "[]" and tab = ex_composite and vs' = ex_seeded]
    by blast
qed

text \<open>
  C8 as stated fails in its last sentence. With a null-event row from \<open>start\<close> to state
  4 construction succeeds and the returned machine is in state 4, not in \<open>start\<close>.
\<close>

theorem fsm_init_leaves_start:
  "map_option (map_sum id (map_option observe \<circ> returned))
     (fsm_init ex_env (Some ex_rels) (Some ex_boot) all_ok ex_vars []) =
   Some (Inr (Some (4, [Call_entry 4 None True])))"
  by code_simp

section \<open>Ancestor chains\<close>

inductive_cases chain_NoneE: "parent_chain env vs None xs"

inductive_cases chain_SomeE: "parent_chain env vs (Some s) xs"

inductive_cases chain_NilE: "parent_chain env vs so []"

inductive_cases chain_ConsE: "parent_chain env vs so (x # xs)"

lemma ancestor_chain_chain:
  "ancestor_chain n env vs so = Some xs \<Longrightarrow> parent_chain env vs so xs \<and> length xs \<le> n"
proof (induction n env vs so arbitrary: xs rule: ancestor_chain.induct)
  case (1 n env vs)
  then show ?case by (simp add: chain_root)
next
  case (2 env vs s)
  then show ?case by simp
next
  case (3 n env vs s)
  then show ?case by (auto intro: chain_step)
qed

lemma chain_ancestor_chain:
  "parent_chain env vs so xs \<Longrightarrow> length xs \<le> n \<Longrightarrow> ancestor_chain n env vs so = Some xs"
proof (induction arbitrary: n rule: parent_chain.induct)
  case chain_root
  then show ?case by simp
next
  case (chain_step s ys)
  then obtain m where "n = Suc m" by (cases n) auto
  with chain_step show ?case by simp
qed

lemma chain_unique:
  "parent_chain env vs so xs \<Longrightarrow> parent_chain env vs so ys \<Longrightarrow> xs = ys"
proof (induction arbitrary: ys rule: parent_chain.induct)
  case chain_root
  then show ?case by (auto elim: chain_NoneE)
next
  case (chain_step s zs)
  from chain_step.prems show ?case
    by (rule chain_SomeE) (simp add: chain_step.IH)
qed

lemma chain_suffix:
  "parent_chain env vs so (pre @ s # post) \<Longrightarrow> parent_chain env vs (Some s) (s # post)"
proof (induction pre arbitrary: so)
  case Nil
  then show ?case by (auto elim: chain_ConsE intro: chain_step)
next
  case (Cons a pre)
  from Cons.prems show ?case
    by (auto elim!: chain_ConsE intro: Cons.IH)
qed

lemma chain_not_in_tail:
  assumes "parent_chain env vs (Some s) (s # ys)"
  shows "s \<notin> set ys"
proof
  assume "s \<in> set ys"
  then obtain p1 p2 where ys: "ys = p1 @ s # p2"
    by (auto simp: in_set_conv_decomp)
  with assms have "parent_chain env vs (Some s) ((s # p1) @ s # p2)" by simp
  then have "parent_chain env vs (Some s) (s # p2)" by (rule chain_suffix)
  with assms have "s # ys = s # p2" by (rule chain_unique)
  with ys show False by simp
qed

lemma chain_distinct:
  "parent_chain env vs so xs \<Longrightarrow> distinct xs"
proof (induction rule: parent_chain.induct)
  case chain_root
  then show ?case by simp
next
  case (chain_step s ys)
  then have "parent_chain env vs (Some s) (s # ys)" by (auto intro: parent_chain.chain_step)
  then have "s \<notin> set ys" by (rule chain_not_in_tail)
  with chain_step show ?case by simp
qed

lemma chain_hd:
  "parent_chain env vs (Some s) xs \<Longrightarrow> \<exists>ys. xs = s # ys"
  by (auto elim: chain_SomeE)

lemma chain_top_of:
  "parent_chain env vs so xs \<Longrightarrow> so = top_of xs"
  by (induction rule: parent_chain.induct) (simp_all add: top_of_def)

lemma chain_tail:
  "parent_chain env vs (Some s) (s # ys) \<Longrightarrow> parent_chain env vs (parent (vs (get_state_variable env s))) ys"
  by (auto elim: chain_SomeE)

lemma chain_parent_eq:
  "parent_chain env vs so xs \<Longrightarrow> \<forall>v. parent (vs' v) = parent (vs v) \<Longrightarrow> parent_chain env vs' so xs"
proof (induction rule: parent_chain.induct)
  case chain_root
  then show ?case by (simp add: parent_chain.chain_root)
next
  case (chain_step s ys)
  then have "parent_chain env vs' (parent (vs' (get_state_variable env s))) ys" by simp
  then show ?case by (rule parent_chain.chain_step)
qed

lemma well_nested_chain:
  "well_nested env vs \<Longrightarrow> \<exists>xs. parent_chain env vs (Some s) xs \<and> length xs \<le> NEST_MAX"
  unfolding well_nested_def
  by (metis ancestor_chain_chain not_None_eq)

lemma ancestor_chain_parent_eq:
  "\<forall>v. parent (vs' v) = parent (vs v) \<Longrightarrow>
   ancestor_chain n env vs' so = ancestor_chain n env vs so"
  by (induction n env vs so rule: ancestor_chain.induct) simp_all

lemma well_nested_parent_eq:
  assumes "\<forall>v. parent (vs' v) = parent (vs v)" and "well_nested env vs"
  shows "well_nested env vs'"
  using assms(2) ancestor_chain_parent_eq [OF assms(1), of NEST_MAX env]
  by (simp add: well_nested_def)

section \<open>The loops of the state change\<close>

lemma push_ancestors_chain:
  "parent_chain env vs so xs \<Longrightarrow> length (items stk) + length xs \<le> capacity stk \<Longrightarrow>
   push_ancestors env vs so stk = Some (stk\<lparr>items := rev xs @ items stk\<rparr>)"
proof (induction arbitrary: stk rule: parent_chain.induct)
  case chain_root
  then show ?case by (subst push_ancestors.simps) simp
next
  case (chain_step s ys)
  have "push_ancestors env vs (parent (vs (get_state_variable env s))) (stack_push stk s) =
          Some ((stack_push stk s)\<lparr>items := rev ys @ items (stack_push stk s)\<rparr>)"
    using chain_step.prems by (intro chain_step.IH) (simp add: stack_push_def)
  then show ?case
    using chain_step.prems
    by (subst push_ancestors.simps) (simp add: stack_push_def)
qed

lemma lca_loop_diverge:
  "items src = c @ a # as \<Longrightarrow> items dest = c @ b # bs \<Longrightarrow> a \<noteq> b \<Longrightarrow>
   lca_loop src dest =
     Some (Some a, Some b, int (length bs), src\<lparr>items := as\<rparr>, dest\<lparr>items := bs\<rparr>)"
proof (induction c arbitrary: src dest)
  case Nil
  then show ?case by (subst lca_loop.simps) (simp add: stack_pop_def)
next
  case (Cons x c)
  have "lca_loop (src\<lparr>items := c @ a # as\<rparr>) (dest\<lparr>items := c @ b # bs\<rparr>) =
          Some (Some a, Some b, int (length bs), src\<lparr>items := c @ a # as\<rparr>\<lparr>items := as\<rparr>,
                dest\<lparr>items := c @ b # bs\<rparr>\<lparr>items := bs\<rparr>)"
    using Cons.prems(3) by (intro Cons.IH) simp_all
  then show ?case
    using Cons.prems by (subst lca_loop.simps) (simp add: stack_pop_def)
qed

lemma lca_loop_dest_short:
  "items src = c @ a # as \<Longrightarrow> items dest = c \<Longrightarrow>
   lca_loop src dest = Some (Some a, None, - 1, src\<lparr>items := as\<rparr>, dest\<lparr>items := []\<rparr>)"
proof (induction c arbitrary: src dest)
  case Nil
  then have "dest\<lparr>items := []\<rparr> = dest" by simp
  with Nil show ?case by (subst lca_loop.simps) (simp add: stack_pop_def)
next
  case (Cons x c)
  have "lca_loop (src\<lparr>items := c @ a # as\<rparr>) (dest\<lparr>items := c\<rparr>) =
          Some (Some a, None, - 1, src\<lparr>items := c @ a # as\<rparr>\<lparr>items := as\<rparr>,
                dest\<lparr>items := c\<rparr>\<lparr>items := []\<rparr>)"
    by (intro Cons.IH) simp_all
  then show ?case
    using Cons.prems by (subst lca_loop.simps) (simp add: stack_pop_def)
qed

lemma lca_loop_src_short:
  "items src = c \<Longrightarrow> items dest = c @ b # bs \<Longrightarrow>
   lca_loop src dest =
     Some (None, Some b, int (length bs), src\<lparr>items := []\<rparr>, dest\<lparr>items := bs\<rparr>)"
proof (induction c arbitrary: src dest)
  case Nil
  then have "src\<lparr>items := []\<rparr> = src" by simp
  with Nil show ?case by (subst lca_loop.simps) (simp add: stack_pop_def)
next
  case (Cons x c)
  have "lca_loop (src\<lparr>items := c\<rparr>) (dest\<lparr>items := c @ b # bs\<rparr>) =
          Some (None, Some b, int (length bs), src\<lparr>items := c\<rparr>\<lparr>items := []\<rparr>,
                dest\<lparr>items := c @ b # bs\<rparr>\<lparr>items := bs\<rparr>)"
    by (intro Cons.IH) simp_all
  then show ?case
    using Cons.prems by (subst lca_loop.simps) (simp add: stack_pop_def)
qed

lemma exit_if_can_be_parent [simp]:
  "parent (vars (exit_if_can_be env w s c) v) = parent (vars w v)"
  by (simp add: exit_if_can_be_def set_history_def Let_def split: option.splits)

lemma exit_if_can_be_machine [simp]:
  "machine (exit_if_can_be env w s c) = machine w"
  by (simp add: exit_if_can_be_def Let_def split: option.splits)

lemma entry_if_can_be_vars [simp]:
  "vars (entry_if_can_be env w s c) = vars w"
  by (simp add: entry_if_can_be_def split: option.splits)

lemma entry_if_can_be_machine [simp]:
  "machine (entry_if_can_be env w s c) = machine w"
  by (simp add: entry_if_can_be_def split: option.splits)

lemma exit_states_parent [simp]:
  "parent (vars (exit_states env w xs anc) v) = parent (vars w v)"
  by (induction xs arbitrary: w) simp_all

lemma exit_states_machine [simp]:
  "machine (exit_states env w xs anc) = machine w"
  by (induction xs arbitrary: w) simp_all

lemma enter_states_vars [simp]:
  "vars (enter_states env w xs) = vars w"
  by (induction xs arbitrary: w) simp_all

lemma enter_states_machine [simp]:
  "machine (enter_states env w xs) = machine w"
  by (induction xs arbitrary: w) simp_all

lemma exit_loop_exact:
  "parent_chain env (vars w) so (ex @ common) \<Longrightarrow> anc = top_of common \<Longrightarrow> anc \<notin> Some ` set ex \<Longrightarrow>
   exit_loop env w so anc = Some (Inr (exit_states env w ex anc))"
proof (induction ex arbitrary: w so)
  case Nil
  then have "so = anc" by (simp add: chain_top_of)
  then show ?case by (subst exit_loop.simps) simp
next
  case (Cons x ex)
  from Cons.prems(1) have so: "so = Some x"
    by (auto dest: chain_top_of simp: top_of_def)
  from Cons.prems(3) have ne: "Some x \<noteq> anc" by auto
  let ?w1 = "exit_if_can_be env w x (parent (vars w (get_state_variable env x)) = anc)"
  from Cons.prems(1) so
  have "parent_chain env (vars w) (parent (vars w (get_state_variable env x))) (ex @ common)"
    by (auto dest: chain_tail)
  then have "parent_chain env (vars ?w1) (parent (vars ?w1 (get_state_variable env x))) (ex @ common)"
    by (auto intro: chain_parent_eq)
  then have "exit_loop env ?w1 (parent (vars ?w1 (get_state_variable env x))) anc =
               Some (Inr (exit_states env ?w1 ex anc))"
    using Cons.prems(2,3) by (intro Cons.IH) auto
  then show ?case
    using so ne by (subst exit_loop.simps) (simp add: Let_def)
qed

lemma entry_loop_exact:
  "items stk = bs \<Longrightarrow>
   entry_loop env w d (int (length bs)) stk =
     (enter_states env w (d # bs), last (d # bs), stk\<lparr>items := []\<rparr>)"
proof (induction bs arbitrary: w d stk)
  case Nil
  then have "stk\<lparr>items := []\<rparr> = stk" by simp
  with Nil show ?case
    by (subst entry_loop.simps) (simp add: stack_pop_def Let_def)
next
  case (Cons b bs)
  have "entry_loop env (entry_if_can_be env w d False) b (int (length bs)) (stk\<lparr>items := bs\<rparr>) =
          (enter_states env (entry_if_can_be env w d False) (b # bs), last (b # bs),
           stk\<lparr>items := bs\<rparr>\<lparr>items := []\<rparr>)"
    by (intro Cons.IH) simp
  then show ?case
    using Cons.prems
    by (subst entry_loop.simps) (simp add: stack_pop_def Let_def)
qed

section \<open>The cascade\<close>

text \<open>
  When the chains of the current state and of the target part at a junction (one of
  them may end there), the cascade exits the states of the current chain below the
  junction and enters those of the target chain below it.
\<close>

lemma cascade_exact:
  assumes cur: "parent_chain env (vars w) (Some (current (machine w))) (ex @ common)"
    and tgt: "parent_chain env (vars w) (Some t) (en @ common)"
    and len: "length (ex @ common) \<le> NEST_MAX" "length (en @ common) \<le> NEST_MAX"
    and st: "stacks_ok (machine w)"
    and en: "en \<noteq> []"
    and junction: "ex = [] \<or> last ex \<noteq> last en"
  shows "change_state_cascade env w t =
           Some (Inr (cascade_result env w t ex en (top_of common), t))"
proof -
  let ?src = "(src_ancestors (machine w))\<lparr>items := rev common @ rev ex\<rparr>"
  let ?dest = "(dest_ancestors (machine w))\<lparr>items := rev common @ rev en\<rparr>"
  have p1: "push_ancestors env (vars w) (Some (current (machine w)))
              (stack_clear (src_ancestors (machine w))) = Some ?src"
    using push_ancestors_chain [OF cur, of "stack_clear (src_ancestors (machine w))"] len st
    by (simp add: stack_clear_def stacks_ok_def)
  have p2: "push_ancestors env (vars w) (Some t)
              (stack_clear (dest_ancestors (machine w))) = Some ?dest"
    using push_ancestors_chain [OF tgt, of "stack_clear (dest_ancestors (machine w))"] len st
    by (simp add: stack_clear_def stacks_ok_def)
  from en obtain b bs where ren: "rev en = b # bs"
    by (cases "rev en") auto
  then have b: "b = last en" and bs: "bs = rev (butlast en)"
    using en by (metis last_rev list.sel(1) rev_rev_ident hd_rev,
                 metis butlast_rev list.sel(3) rev_rev_ident rev_swap)
  from tgt en have hd_en: "hd en = t"
    by (cases en) (auto elim: chain_SomeE)
  have last_b: "last (rev en) = t"
    using hd_en en by (simp add: last_rev)
  show ?thesis
  proof (cases "ex = []")
    case True
    have lca: "lca_loop ?src ?dest =
                 Some (None, Some b, int (length bs), ?src\<lparr>items := []\<rparr>, ?dest\<lparr>items := bs\<rparr>)"
      using True ren by (intro lca_loop_src_short) simp_all
    have ex0: "exit_loop env w (Some (current (machine w))) (Some (current (machine w))) =
                 Some (Inr w)"
      by (subst exit_loop.simps) simp
    show ?thesis
      unfolding change_state_cascade_def p1 p2 option.case lca
      by (simp add: ex0 entry_loop_exact cascade_result_def Let_def True last_b
                    ren [symmetric] del: last.simps enter_states.simps)
  next
    case False
    then obtain a as where rex: "rev ex = a # as"
      by (cases "rev ex") auto
    then have a: "a = last ex" and as: "as = rev (butlast ex)"
      using False by (metis last_rev list.sel(1) rev_rev_ident hd_rev,
                      metis butlast_rev list.sel(3) rev_rev_ident rev_swap)
    from junction False a b have ab: "a \<noteq> b" by simp
    have lca: "lca_loop ?src ?dest =
                 Some (Some a, Some b, int (length bs), ?src\<lparr>items := as\<rparr>, ?dest\<lparr>items := bs\<rparr>)"
      using rex ren ab by (intro lca_loop_diverge) simp_all
    from False a have exa: "ex = butlast ex @ [a]" by simp
    with cur have "parent_chain env (vars w) (Some (current (machine w))) (butlast ex @ a # common)"
      by (metis append.assoc append_Cons append_Nil)
    then have "parent_chain env (vars w) (Some a) (a # common)" by (rule chain_suffix)
    then have pa: "parent (vars w (get_state_variable env a)) = top_of common"
      by (auto dest: chain_tail chain_top_of)
    from cur have "distinct (ex @ common)" by (rule chain_distinct)
    then have notin: "top_of common \<notin> Some ` set ex"
      by (cases common) (auto simp: top_of_def)
    have exl: "exit_loop env w (Some (current (machine w))) (top_of common) =
                 Some (Inr (exit_states env w ex (top_of common)))"
      using cur notin by (intro exit_loop_exact) simp_all
    show ?thesis
      unfolding change_state_cascade_def p1 p2 option.case lca
      by (simp add: pa exl entry_loop_exact cascade_result_def Let_def last_b as
                    ren [symmetric] del: last.simps enter_states.simps)
  qed
qed

text \<open>When the chain of the target is used up first, the assertion on \<open>dest_state\<close> fails.\<close>

lemma cascade_abort:
  assumes cur: "parent_chain env (vars w) (Some (current (machine w))) (ex @ common)"
    and tgt: "parent_chain env (vars w) (Some t) common"
    and len: "length (ex @ common) \<le> NEST_MAX"
    and st: "stacks_ok (machine w)"
    and ex: "ex \<noteq> []"
  shows "\<exists>wa. change_state_cascade env w t = Some (Inl (Assert_dest_state wa)) \<and>
              trace wa = trace w \<and> vars wa = vars w \<and>
              current (machine wa) = current (machine w) \<and>
              corresps (machine wa) = corresps (machine w)"
proof -
  let ?src = "(src_ancestors (machine w))\<lparr>items := rev common @ rev ex\<rparr>"
  let ?dest = "(dest_ancestors (machine w))\<lparr>items := rev common\<rparr>"
  have p1: "push_ancestors env (vars w) (Some (current (machine w)))
              (stack_clear (src_ancestors (machine w))) = Some ?src"
    using push_ancestors_chain [OF cur, of "stack_clear (src_ancestors (machine w))"] len st
    by (simp add: stack_clear_def stacks_ok_def)
  have p2: "push_ancestors env (vars w) (Some t)
              (stack_clear (dest_ancestors (machine w))) = Some ?dest"
    using push_ancestors_chain [OF tgt, of "stack_clear (dest_ancestors (machine w))"] len st
    by (simp add: stack_clear_def stacks_ok_def)
  from ex obtain a as where rex: "rev ex = a # as"
    by (cases "rev ex") auto
  have lca: "lca_loop ?src ?dest =
               Some (Some a, None, - 1, ?src\<lparr>items := as\<rparr>, ?dest\<lparr>items := []\<rparr>)"
    using rex by (intro lca_loop_dest_short) simp_all
  show ?thesis
    unfolding change_state_cascade_def p1 p2 option.case lca
    by simp
qed

lemma common_prefix_split:
  "\<exists>c A' B'. A = c @ A' \<and> B = c @ B' \<and> (A' = [] \<or> B' = [] \<or> hd A' \<noteq> hd B')"
proof (induction A arbitrary: B)
  case Nil
  then show ?case by simp
next
  case (Cons a A)
  show ?case
  proof (cases B)
    case Nil
    then show ?thesis by simp
  next
    case (Cons b B0)
    show ?thesis
    proof (cases "a = b")
      case True
      from Cons.IH [of B0] obtain c A' B' where
        "A = c @ A'" "B0 = c @ B'" "A' = [] \<or> B' = [] \<or> hd A' \<noteq> hd B'"
        by blast
      with True Cons have "a # A = (a # c) @ A' \<and> B = (a # c) @ B' \<and>
          (A' = [] \<or> B' = [] \<or> hd A' \<noteq> hd B')"
        by simp
      then show ?thesis by blast
    next
      case False
      with Cons have "a # A = [] @ (a # A) \<and> B = [] @ (b # B0) \<and>
          (a # A = [] \<or> b # B0 = [] \<or> hd (a # A) \<noteq> hd (b # B0))"
        by simp
      then show ?thesis by blast
    qed
  qed
qed

lemma common_suffix_split:
  "\<exists>ex en common. xs = ex @ common \<and> ys = en @ common \<and>
     (ex = [] \<or> en = [] \<or> last ex \<noteq> last en)"
proof -
  from common_prefix_split [of "rev xs" "rev ys"] obtain c A' B' where
    a: "rev xs = c @ A'" and b: "rev ys = c @ B'"
    and j: "A' = [] \<or> B' = [] \<or> hd A' \<noteq> hd B'"
    by blast
  from a have "xs = rev A' @ rev c" by (metis rev_append rev_rev_ident)
  moreover from b have "ys = rev B' @ rev c" by (metis rev_append rev_rev_ident)
  moreover from j have "rev A' = [] \<or> rev B' = [] \<or> last (rev A') \<noteq> last (rev B')"
    by (auto simp: last_rev)
  ultimately show ?thesis by blast
qed

lemma cascade_result_simps [simp]:
  "vars (cascade_result env w t ex en anc) = vars (exit_states env w ex anc)"
  "current (machine (cascade_result env w t ex en anc)) = t"
  "corresps (machine (cascade_result env w t ex en anc)) = corresps (machine w)"
  "stacks_ok (machine (cascade_result env w t ex en anc)) = stacks_ok (machine w)"
  by (simp_all add: cascade_result_def Let_def stacks_ok_def)

lemma cascade_cases:
  assumes wn: "well_nested env (vars w)" and st: "stacks_ok (machine w)"
    and ne: "current (machine w) \<noteq> t"
  shows "((\<exists>wa. change_state_cascade env w t = Some (Inl (Assert_dest_state wa))) \<and>
          (\<exists>xs. parent_chain env (vars w) (Some (current (machine w))) xs \<and> t \<in> set xs)) \<or>
         (\<exists>ex en common.
            parent_chain env (vars w) (Some (current (machine w))) (ex @ common) \<and>
            parent_chain env (vars w) (Some t) (en @ common) \<and> en \<noteq> [] \<and>
            (ex = [] \<or> last ex \<noteq> last en) \<and>
            change_state_cascade env w t =
              Some (Inr (cascade_result env w t ex en (top_of common), t)))"
proof -
  from wn obtain xs where xs: "parent_chain env (vars w) (Some (current (machine w))) xs"
    and lx: "length xs \<le> NEST_MAX"
    using well_nested_chain by blast
  from wn obtain ys where ys: "parent_chain env (vars w) (Some t) ys" and ly: "length ys \<le> NEST_MAX"
    using well_nested_chain by blast
  from common_suffix_split [of xs ys] obtain ex en common where
    sx: "xs = ex @ common" and sy: "ys = en @ common"
    and j: "ex = [] \<or> en = [] \<or> last ex \<noteq> last en"
    by blast
  show ?thesis
  proof (cases "en = []")
    case True
    have "ex \<noteq> []"
    proof
      assume "ex = []"
      with True sx sy xs ys have "Some (current (machine w)) = Some t"
        by (metis append_Nil chain_top_of)
      with ne show False by simp
    qed
    with xs ys sx sy True lx st
    have "\<exists>wa. change_state_cascade env w t = Some (Inl (Assert_dest_state wa))"
      using cascade_abort [where env = env and w = w and t = t and ex = ex and common = common]
      by auto
    moreover from ys sy True have "t \<in> set xs"
      using sx by (auto dest: chain_hd)
    ultimately show ?thesis using xs by blast
  next
    case False
    with j have j': "ex = [] \<or> last ex \<noteq> last en" by simp
    have "change_state_cascade env w t =
            Some (Inr (cascade_result env w t ex en (top_of common), t))"
      using xs ys sx sy lx ly st False j'
      by (intro cascade_exact) simp_all
    with xs ys sx sy False j' show ?thesis by blast
  qed
qed

section \<open>A target that is an ancestor of the current state\<close>

text \<open>
  C1, as the code has it. When the target is a proper ancestor of the current state
  (it is on the chain of the current state, after its head), the lock-step pop uses up
  the chain of the target first and leaves \<open>dest_state\<close> NULL: the state change ends
  in the failed assertion \<open>dest_state != NULL\<close>, which stands before the exit and the
  entry cascade. When the assertion fails no callback has been called (the trace is
  the one before the call, so neither an exit nor the entry of the target has run), no
  state variable has been written, and the current state is still the one before the
  call: it has not been set to the target.
\<close>

theorem change_state_to_ancestor_aborts:
  assumes "ancestor_chain NEST_MAX env (vars w) (Some (current (machine w))) = Some xs"
    and "t \<in> set (tl xs)"
    and "stacks_ok (machine w)"
  shows "\<exists>wa. fsm_change_state env w t = Some (Inl (Assert_dest_state wa)) \<and>
              trace wa = trace w \<and> vars wa = vars w \<and>
              current (machine wa) = current (machine w)"
proof -
  from assms(1) have ch: "parent_chain env (vars w) (Some (current (machine w))) xs"
    and len: "length xs \<le> NEST_MAX"
    by (auto dest: ancestor_chain_chain)
  from ch obtain ys where xs: "xs = current (machine w) # ys"
    by (auto dest: chain_hd)
  with assms(2) obtain p1 p2 where ys: "ys = p1 @ t # p2"
    by (auto simp: in_set_conv_decomp)
  let ?ex = "current (machine w) # p1"
  from xs ys have split: "xs = ?ex @ t # p2" by simp
  have tgt: "parent_chain env (vars w) (Some t) (t # p2)"
    using ch chain_suffix [of env "vars w" "Some (current (machine w))" ?ex t p2]
    unfolding split by simp
  from ch have "distinct xs" by (rule chain_distinct)
  with split have ne: "current (machine w) \<noteq> t" by auto
  have "\<exists>wa. change_state_cascade env w t = Some (Inl (Assert_dest_state wa)) \<and>
              trace wa = trace w \<and> vars wa = vars w \<and>
              current (machine wa) = current (machine w) \<and>
              corresps (machine wa) = corresps (machine w)"
    using ch tgt len assms(3) split
    by (intro cascade_abort [where ex = ?ex and common = "t # p2"]) simp_all
  then obtain wa where "change_state_cascade env w t = Some (Inl (Assert_dest_state wa))"
    and "trace wa = trace w" "vars wa = vars w" "current (machine wa) = current (machine w)"
    by blast
  with ne show ?thesis
    by (subst fsm_change_state.simps) simp
qed

theorem change_state_to_ancestor_aborts_witness:
  "\<exists>wa. fsm_change_state ex_env ex_inner 2 = Some (Inl (Assert_dest_state wa)) \<and>
        trace wa = [] \<and> vars wa = ex_nested \<and> current (machine wa) = 3"
proof -
  have chain: "ancestor_chain NEST_MAX ex_env (vars ex_inner) (Some (current (machine ex_inner))) =
                 Some [3, 2]"
    by code_simp
  have above: "2 \<in> set (tl [3, 2 :: nat])" by simp
  have stacks: "stacks_ok (machine ex_inner)"
    by (simp add: stacks_ok_def ex_inner_def ex_machine_def stack_init_def)
  from change_state_to_ancestor_aborts [OF chain above stacks]
  show ?thesis
    by (simp add: ex_inner_def ex_machine_def)
qed

text \<open>
  C1 as stated fails. From state 6, whose parent is 3 and whose grandparent is 2, the
  state change to 2 does not end with the machine in state 2: it aborts on the
  assertion about \<open>dest_state\<close>, the machine still in state 6 and no callback called.
\<close>

theorem change_state_to_grandparent_aborts:
  "map_option (map_sum observe_abort observe) (fsm_change_state ex_env ex_deep 2) =
     Some (Inl (Dest_state_null (6, [])))"
  by code_simp

section \<open>Termination of the state change\<close>

lemma history_children_below:
  "history_children env vs \<Longrightarrow> history_below env vs"
  unfolding history_children_def history_below_def by blast

lemma exit_if_can_be_history_below:
  assumes "history_below env (vars w)"
  shows "history_below env (vars (exit_if_can_be env w s c))"
  unfolding history_below_def
proof (intro allI impI)
  fix s' h
  assume h: "history (vars (exit_if_can_be env w s c) (get_state_variable env s')) = Some h"
  show "\<exists>p. parent (vars (exit_if_can_be env w s c) (get_state_variable env h)) = Some p \<and>
            get_state_variable env p = get_state_variable env s'"
  proof (cases "parent (vars w (get_state_variable env s))")
    case None
    then have "vars (exit_if_can_be env w s c) = vars w"
      by (simp add: exit_if_can_be_def Let_def split: option.splits)
    with h assms show ?thesis
      by (simp add: history_below_def)
  next
    case (Some p)
    then have v: "vars (exit_if_can_be env w s c) = set_history env (vars w) p s"
      by (simp add: exit_if_can_be_def Let_def split: option.splits)
    show ?thesis
    proof (cases "get_state_variable env s' = get_state_variable env p")
      case True
      with h v have "h = s" by (simp add: set_history_def)
      with Some True show ?thesis by simp
    next
      case False
      with h v have "history (vars w (get_state_variable env s')) = Some h"
        by (simp add: set_history_def)
      with assms show ?thesis
        by (simp add: history_below_def)
    qed
  qed
qed

lemma exit_states_history_below:
  "history_below env (vars w) \<Longrightarrow> history_below env (vars (exit_states env w xs anc))"
  by (induction xs arbitrary: w) (simp_all add: exit_if_can_be_history_below)

lemma depth_chain:
  "parent_chain env vs (Some s) xs \<Longrightarrow> length xs \<le> NEST_MAX \<Longrightarrow> depth env vs s = length xs"
  by (simp add: depth_def chain_ancestor_chain)

lemma depth_parent_eq:
  "\<forall>v. parent (vs' v) = parent (vs v) \<Longrightarrow> depth env vs' s = depth env vs s"
  using ancestor_chain_parent_eq [of vs' vs NEST_MAX env "Some s"]
  by (simp add: depth_def)

lemma depth_bounds:
  assumes "well_nested env vs"
  shows "0 < depth env vs s \<and> depth env vs s \<le> NEST_MAX"
proof -
  from assms obtain xs where xs: "parent_chain env vs (Some s) xs" and l: "length xs \<le> NEST_MAX"
    using well_nested_chain by blast
  then have "depth env vs s = length xs" by (rule depth_chain)
  moreover from xs have "xs \<noteq> []" by (auto dest: chain_hd)
  ultimately show ?thesis using l by simp
qed

lemma depth_alias:
  "get_state_variable env a = get_state_variable env b \<Longrightarrow> depth env vs a = depth env vs b"
  by (simp add: depth_def NEST_MAX_def numeral_eq_Suc split: option.splits)

lemma depth_parent:
  assumes "well_nested env vs" and "parent (vs (get_state_variable env s)) = Some q"
  shows "depth env vs s = Suc (depth env vs q)"
proof -
  from assms(1) obtain xs where xs: "parent_chain env vs (Some s) xs" and l: "length xs \<le> NEST_MAX"
    using well_nested_chain by blast
  from xs assms(2) obtain ys where e: "xs = s # ys" and ys: "parent_chain env vs (Some q) ys"
    by (auto elim: chain_SomeE)
  from ys l e have "depth env vs q = length ys" by (intro depth_chain) simp_all
  moreover from xs l have "depth env vs s = length xs" by (rule depth_chain)
  ultimately show ?thesis using e by simp
qed

lemma parent_not_alias:
  assumes "well_nested env vs" and "parent (vs (get_state_variable env s)) = Some q"
  shows "get_state_variable env q \<noteq> get_state_variable env s"
  using depth_parent [OF assms] depth_alias [of env q s vs] by auto

lemma history_deeper:
  assumes wn: "well_nested env vs" and hb: "history_below env vs"
    and h: "history (vs (get_state_variable env t)) = Some h"
  shows "depth env vs h = Suc (depth env vs t)"
proof -
  from hb h obtain p where p: "parent (vs (get_state_variable env h)) = Some p"
    and al: "get_state_variable env p = get_state_variable env t"
    unfolding history_below_def by blast
  from wn obtain hs where hs: "parent_chain env vs (Some h) hs" and lh: "length hs \<le> NEST_MAX"
    using well_nested_chain by blast
  from wn obtain ts where ts: "parent_chain env vs (Some t) ts" and lt: "length ts \<le> NEST_MAX"
    using well_nested_chain by blast
  from hs p obtain ps where hs_eq: "hs = h # ps" and ps: "parent_chain env vs (Some p) ps"
    by (auto elim: chain_SomeE)
  from ps obtain rest where ps_eq: "ps = p # rest"
    and rest: "parent_chain env vs (parent (vs (get_state_variable env p))) rest"
    by (auto elim: chain_SomeE)
  from ts obtain rest' where ts_eq: "ts = t # rest'"
    and rest': "parent_chain env vs (parent (vs (get_state_variable env t))) rest'"
    by (auto elim: chain_SomeE)
  from rest rest' al have "rest = rest'" by (auto intro: chain_unique)
  with hs_eq ps_eq ts_eq have "length hs = Suc (length ts)" by simp
  with hs lh ts lt show ?thesis by (simp add: depth_chain)
qed

lemma cascade_step:
  assumes wn: "well_nested env (vars w)" and hb: "history_below env (vars w)"
    and st: "stacks_ok (machine w)" and ne: "current (machine w) \<noteq> t"
    and cas: "change_state_cascade env w t = Some (Inr (w', d))"
  shows "d = t \<and> well_nested env (vars w') \<and> history_below env (vars w') \<and>
         stacks_ok (machine w') \<and> current (machine w') = t \<and>
         corresps (machine w') = corresps (machine w) \<and>
         (\<forall>v. parent (vars w' v) = parent (vars w v))"
proof -
  from cascade_cases [OF wn st ne] cas obtain ex en common where
    r: "change_state_cascade env w t =
          Some (Inr (cascade_result env w t ex en (top_of common), t))"
    by auto
  from r cas have w': "w' = cascade_result env w t ex en (top_of common)" and d: "d = t"
    by auto
  have par: "\<forall>v. parent (vars w' v) = parent (vars w v)"
    by (simp add: w')
  from par wn have "well_nested env (vars w')" by (rule well_nested_parent_eq)
  moreover from hb have "history_below env (vars w')"
    by (simp add: w' exit_states_history_below)
  ultimately show ?thesis
    using d par st by (simp add: w')
qed

lemma change_state_within_total:
  "well_nested env (vars w) \<Longrightarrow> history_below env (vars w) \<Longrightarrow> stacks_ok (machine w) \<Longrightarrow>
   NEST_MAX < n + depth env (vars w) t \<Longrightarrow> \<exists>r. change_state_within n env w t = Some r"
proof (induction n arbitrary: w t)
  case 0
  with depth_bounds [of env "vars w" t] show ?case by simp
next
  case (Suc n)
  show ?case
  proof (cases "current (machine w) = t")
    case True
    then show ?thesis by simp
  next
    case False
    show ?thesis
    proof (cases "change_state_cascade env w t")
      case None
      with cascade_cases [OF Suc.prems(1,3) False] show ?thesis by auto
    next
      case (Some r)
      show ?thesis
      proof (cases r)
        case (Inl a)
        with Some False show ?thesis by simp
      next
        case (Inr p)
        obtain w' d where p: "p = (w', d)" by (cases p)
        with Some Inr have cas: "change_state_cascade env w t = Some (Inr (w', d))" by simp
        note step = cascade_step [OF Suc.prems(1,2,3) False cas]
        show ?thesis
        proof (cases "history (vars w' (get_state_variable env d))")
          case None
          with cas False show ?thesis by simp
        next
          case (Some h)
          with step have "depth env (vars w') h = Suc (depth env (vars w') t)"
            by (intro history_deeper) simp_all
          moreover from step have "depth env (vars w') t = depth env (vars w) t"
            by (intro depth_parent_eq) simp
          ultimately have "NEST_MAX < n + depth env (vars w') h"
            using Suc.prems(4) by simp
          with step have "\<exists>r. change_state_within n env w' h = Some r"
            by (intro Suc.IH) simp_all
          with cas False Some show ?thesis by simp
        qed
      qed
    qed
  qed
qed

lemma change_state_within_sound:
  "change_state_within n env w t = Some r \<Longrightarrow> fsm_change_state env w t = Some r"
proof (induction n arbitrary: w t)
  case 0
  then show ?case by simp
next
  case (Suc n)
  show ?case
  proof (cases "current (machine w) = t")
    case True
    with Suc.prems show ?thesis
      by (subst fsm_change_state.simps) simp
  next
    case False
    with Suc.prems show ?thesis
      by (subst fsm_change_state.simps)
         (auto split: option.splits sum.splits intro: Suc.IH)
  qed
qed

lemma recursive_call_invariant:
  assumes "(recursive_call env)\<^sup>*\<^sup>* (w, t) c"
    and "well_nested env (vars w)" and "history_below env (vars w)" and "stacks_ok (machine w)"
  shows "well_nested env (vars (fst c)) \<and> history_below env (vars (fst c)) \<and>
         stacks_ok (machine (fst c))"
  using assms
proof (induction rule: rtranclp_induct)
  case base
  then show ?case by simp
next
  case (step c c')
  then have inv: "well_nested env (vars (fst c))" "history_below env (vars (fst c))"
      "stacks_ok (machine (fst c))"
    by simp_all
  from step.hyps(2) obtain d where ne: "current (machine (fst c)) \<noteq> snd c"
    and cas: "change_state_cascade env (fst c) (snd c) = Some (Inr (fst c', d))"
    unfolding recursive_call_def by blast
  from cascade_step [OF inv ne cas] show ?case by simp
qed

lemma recursive_call_deeper:
  assumes inv: "well_nested env (vars (fst c))" "history_below env (vars (fst c))"
      "stacks_ok (machine (fst c))"
    and call: "recursive_call env c c'"
  shows "depth env (vars (fst c')) (snd c') = Suc (depth env (vars (fst c)) (snd c))"
proof -
  from call obtain d where ne: "current (machine (fst c)) \<noteq> snd c"
    and cas: "change_state_cascade env (fst c) (snd c) = Some (Inr (fst c', d))"
    and h: "history (vars (fst c') (get_state_variable env d)) = Some (snd c')"
    unfolding recursive_call_def by blast
  note step = cascade_step [OF inv ne cas]
  with h have "depth env (vars (fst c')) (snd c') = Suc (depth env (vars (fst c')) (snd c))"
    by (intro history_deeper) simp_all
  moreover from step have "depth env (vars (fst c')) (snd c) = depth env (vars (fst c)) (snd c)"
    by (intro depth_parent_eq) simp
  ultimately show ?thesis by simp
qed

text \<open>
  C9. With a parent relation of nesting depth at most \<open>NEST_MAX\<close>, histories that are
  children of their owners, and the stacks of \<open>fsm_init\<close>, the state change returns (a
  world, or the failed assertion of an ancestor target), and \<open>NEST_MAX\<close> nested calls are
  enough for it. Every recursive call, reached through any number of history
  continuations, has a target exactly one level deeper than the call that makes it,
  and no deeper than \<open>NEST_MAX\<close>.
\<close>

theorem fsm_change_state_terminates:
  assumes "well_nested env (vars w)" and "history_children env (vars w)"
    and "stacks_ok (machine w)"
  shows "(\<exists>r. change_state_within NEST_MAX env w t = Some r \<and>
              fsm_change_state env w t = Some r) \<and>
         (\<forall>c c'. (recursive_call env)\<^sup>*\<^sup>* (w, t) c \<and> recursive_call env c c' \<longrightarrow>
              depth env (vars (fst c')) (snd c') = Suc (depth env (vars (fst c)) (snd c)) \<and>
              depth env (vars (fst c')) (snd c') \<le> NEST_MAX)"
proof -
  from assms(2) have hb: "history_below env (vars w)" by (rule history_children_below)
  from depth_bounds [OF assms(1), of t] have "NEST_MAX < NEST_MAX + depth env (vars w) t"
    by simp
  with assms(1,3) hb obtain r where r: "change_state_within NEST_MAX env w t = Some r"
    using change_state_within_total by blast
  then have "fsm_change_state env w t = Some r" by (rule change_state_within_sound)
  with r have first: "\<exists>r. change_state_within NEST_MAX env w t = Some r \<and>
              fsm_change_state env w t = Some r"
    by blast
  have second: "depth env (vars (fst c')) (snd c') = Suc (depth env (vars (fst c)) (snd c)) \<and>
                depth env (vars (fst c')) (snd c') \<le> NEST_MAX"
    if reach: "(recursive_call env)\<^sup>*\<^sup>* (w, t) c" and call: "recursive_call env c c'" for c c'
  proof -
    from recursive_call_invariant [OF reach assms(1) hb assms(3)]
    have inv: "well_nested env (vars (fst c))" "history_below env (vars (fst c))"
      "stacks_ok (machine (fst c))"
      by simp_all
    from reach call have "(recursive_call env)\<^sup>*\<^sup>* (w, t) c'" by simp
    from recursive_call_invariant [OF this assms(1) hb assms(3)]
    have "well_nested env (vars (fst c'))" by simp
    then have "depth env (vars (fst c')) (snd c') \<le> NEST_MAX"
      using depth_bounds by blast
    with recursive_call_deeper [OF inv call] show ?thesis by simp
  qed
  from first second show ?thesis by blast
qed

lemma ex_history_well_nested: "well_nested ex_env ex_history"
  unfolding well_nested_def NEST_MAX_def
  by (simp add: numeral_eq_Suc ex_env_def ex_history_def ex_seeded_def ex_vars_def
                get_state_variable_def set_parent_def set_history_def)

lemma ex_history_children: "history_children ex_env ex_history"
  unfolding history_children_def
  by (auto simp: ex_env_def ex_history_def ex_seeded_def ex_vars_def
                 get_state_variable_def set_parent_def set_history_def split: if_splits)

lemma ex_outside_stacks: "stacks_ok (machine ex_outside)"
  by (simp add: stacks_ok_def ex_outside_def ex_machine_def stack_init_def)

lemma ex_outside_chain:
  "ancestor_chain NEST_MAX ex_env (vars ex_outside) (Some (current (machine ex_outside))) = Some [4]"
  by code_simp

theorem fsm_change_state_terminates_witness:
  "\<exists>r. change_state_within NEST_MAX ex_env ex_outside 2 = Some r \<and>
       fsm_change_state ex_env ex_outside 2 = Some r"
  using fsm_change_state_terminates [of ex_env ex_outside 2]
        ex_history_well_nested ex_history_children ex_outside_stacks
  by (simp add: ex_outside_def)

section \<open>Descent through recorded histories\<close>

lemma exit_if_can_be_history:
  "history (vars (exit_if_can_be env w s c) v) = history (vars w v) \<or>
   (\<exists>q. parent (vars w (get_state_variable env s)) = Some q \<and> v = get_state_variable env q \<and>
        history (vars (exit_if_can_be env w s c) v) = Some s)"
  by (simp add: exit_if_can_be_def set_history_def Let_def split: option.splits)

lemma exit_states_history:
  "history (vars (exit_states env w ex anc) v) = history (vars w v) \<or>
   (\<exists>x\<in>set ex. \<exists>q. parent (vars w (get_state_variable env x)) = Some q \<and>
        v = get_state_variable env q)"
proof (induction ex arbitrary: w)
  case Nil
  then show ?case by simp
next
  case (Cons x ex)
  let ?w1 = "exit_if_can_be env w x (parent (vars w (get_state_variable env x)) = anc)"
  from Cons.IH [of ?w1] exit_if_can_be_history [of env w x _ v]
  show ?case by (auto simp del: exit_if_can_be_parent) (auto)
qed

lemma history_leaf_None:
  "history (vs (get_state_variable env s)) = None \<Longrightarrow> history_leaf n env vs s = s"
  by (cases n) simp_all

lemma history_step:
  assumes wn: "well_nested env (vars w)" and hb: "history_below env (vars w)"
    and st: "stacks_ok (machine w)"
    and h: "history (vars w (get_state_variable env (current (machine w)))) = Some h"
  shows "\<exists>w1. change_state_cascade env w h = Some (Inr (w1, h)) \<and>
           current (machine w) \<noteq> h \<and> current (machine w1) = h \<and>
           (\<forall>v. history (vars w1 v) = history (vars w v) \<or>
                (\<exists>q. parent (vars w (get_state_variable env (current (machine w)))) = Some q \<and>
                     v = get_state_variable env q \<and>
                     history (vars w1 v) = Some (current (machine w))))"
proof -
  let ?cur = "current (machine w)"
  from hb h obtain p where p: "parent (vars w (get_state_variable env h)) = Some p"
    and al: "get_state_variable env p = get_state_variable env ?cur"
    unfolding history_below_def by blast
  from wn obtain hs where hs: "parent_chain env (vars w) (Some h) hs" and lh: "length hs \<le> NEST_MAX"
    using well_nested_chain by blast
  from wn obtain cs where cs: "parent_chain env (vars w) (Some ?cur) cs" and lc: "length cs \<le> NEST_MAX"
    using well_nested_chain by blast
  from hs p obtain ps where hs_eq: "hs = h # ps" and ps: "parent_chain env (vars w) (Some p) ps"
    by (auto elim: chain_SomeE)
  from ps obtain rest where ps_eq: "ps = p # rest"
    and rest: "parent_chain env (vars w) (parent (vars w (get_state_variable env p))) rest"
    by (auto elim: chain_SomeE)
  from cs obtain rest' where cs_eq: "cs = ?cur # rest'"
    and rest': "parent_chain env (vars w) (parent (vars w (get_state_variable env ?cur))) rest'"
    by (auto elim: chain_SomeE)
  from rest rest' al have rr: "rest' = rest" by (auto intro: chain_unique)
  from hs have "distinct hs" by (rule chain_distinct)
  with hs_eq ps_eq have hp: "h \<noteq> p" and hrest: "h \<notin> set rest" by auto
  have ne: "?cur \<noteq> h"
  proof
    assume "?cur = h"
    with hs cs have "hs = cs" by (auto intro: chain_unique)
    with hs_eq ps_eq cs_eq rr show False by simp
  qed
  show ?thesis
  proof (cases "p = ?cur")
    case True
    have "change_state_cascade env w h =
            Some (Inr (cascade_result env w h [] [h] (top_of cs), h))"
      using cs hs hs_eq ps_eq cs_eq rr True lh lc st
      by (intro cascade_exact) simp_all
    then show ?thesis using ne by simp
  next
    case False
    have "change_state_cascade env w h =
            Some (Inr (cascade_result env w h [?cur] [h, p] (top_of rest), h))"
      using cs hs hs_eq ps_eq cs_eq rr False lh lc st
      by (intro cascade_exact) simp_all
    then show ?thesis
      using ne exit_if_can_be_history [of env w ?cur]
      by (auto simp del: exit_if_can_be_parent)
  qed
qed

lemma history_run:
  "well_nested env (vars w) \<Longrightarrow> history_below env (vars w) \<Longrightarrow> stacks_ok (machine w) \<Longrightarrow>
   history (vars w (get_state_variable env (current (machine w)))) = Some h \<Longrightarrow>
   NEST_MAX \<le> n + depth env (vars w) h \<Longrightarrow>
   \<exists>w'. fsm_change_state env w h = Some (Inr w') \<and>
        current (machine w') = history_leaf n env (vars w') h \<and>
        (\<forall>v. history (vars w' v) = history (vars w v) \<or>
             (\<exists>q. parent (vars w (get_state_variable env (current (machine w)))) = Some q \<and>
                  v = get_state_variable env q \<and>
                  history (vars w' v) = Some (current (machine w))))"
proof (induction n arbitrary: w h rule: less_induct)
  case (less n)
  note wn = less.prems(1) and hb = less.prems(2) and st = less.prems(3)
    and h = less.prems(4) and fuel = less.prems(5)
  let ?cur = "current (machine w)"
  from history_step [OF wn hb st h] obtain w1 where
    cas: "change_state_cascade env w h = Some (Inr (w1, h))"
    and ne: "?cur \<noteq> h" and cur1: "current (machine w1) = h"
    and fr1: "\<forall>v. history (vars w1 v) = history (vars w v) \<or>
                (\<exists>q. parent (vars w (get_state_variable env ?cur)) = Some q \<and>
                     v = get_state_variable env q \<and> history (vars w1 v) = Some ?cur)"
    by blast
  from cascade_step [OF wn hb st ne cas]
  have wn1: "well_nested env (vars w1)" and hb1: "history_below env (vars w1)"
    and st1: "stacks_ok (machine w1)"
    and par1: "\<forall>v. parent (vars w1 v) = parent (vars w v)"
    by simp_all
  show ?case
  proof (cases "history (vars w1 (get_state_variable env h))")
    case None
    with cas ne have "fsm_change_state env w h = Some (Inr w1)"
      by (subst fsm_change_state.simps) simp
    moreover from None have "history_leaf n env (vars w1) h = h"
      by (rule history_leaf_None)
    ultimately show ?thesis using cur1 fr1 by auto
  next
    case (Some h')
    have d': "depth env (vars w1) h' = Suc (depth env (vars w1) h)"
      using wn1 hb1 Some by (rule history_deeper)
    have dd: "depth env (vars w1) h = depth env (vars w) h"
      using par1 by (rule depth_parent_eq)
    from depth_bounds [OF wn1, of h'] d' dd fuel obtain m where n: "n = Suc m"
      by (cases n) auto
    with d' dd fuel have fuel': "NEST_MAX \<le> m + depth env (vars w1) h'" by simp
    from Some cur1 have h1: "history (vars w1 (get_state_variable env (current (machine w1)))) = Some h'"
      by simp
    from n have "m < n" by simp
    from less.IH [OF this wn1 hb1 st1 h1 fuel'] obtain w' where
      run: "fsm_change_state env w1 h' = Some (Inr w')"
      and leaf: "current (machine w') = history_leaf m env (vars w') h'"
      and fr2: "\<forall>v. history (vars w' v) = history (vars w1 v) \<or>
                  (\<exists>q. parent (vars w1 (get_state_variable env (current (machine w1)))) = Some q \<and>
                       v = get_state_variable env q \<and>
                       history (vars w' v) = Some (current (machine w1)))"
      by blast
    from cas ne Some run have res: "fsm_change_state env w h = Some (Inr w')"
      by (subst fsm_change_state.simps) simp
    have keep: "history (vars w' (get_state_variable env h)) = Some h'"
    proof -
      from fr2 cur1 have "history (vars w' (get_state_variable env h)) =
            history (vars w1 (get_state_variable env h)) \<or>
          (\<exists>q. parent (vars w1 (get_state_variable env h)) = Some q \<and>
               get_state_variable env h = get_state_variable env q)"
        by metis
      with parent_not_alias [OF wn1, of h] Some show ?thesis by metis
    qed
    with leaf n have leaf': "current (machine w') = history_leaf n env (vars w') h"
      by simp
    from hb h obtain p where p: "parent (vars w (get_state_variable env h)) = Some p"
      and al: "get_state_variable env p = get_state_variable env ?cur"
      unfolding history_below_def by blast
    have frame: "history (vars w' v) = history (vars w v) \<or>
             (\<exists>q. parent (vars w (get_state_variable env ?cur)) = Some q \<and>
                  v = get_state_variable env q \<and> history (vars w' v) = Some ?cur)" for v
    proof -
      from fr2 cur1 consider
        (same) "history (vars w' v) = history (vars w1 v)"
        | (written) q where "parent (vars w1 (get_state_variable env h)) = Some q"
            "v = get_state_variable env q" "history (vars w' v) = Some h"
        by metis
      then show ?thesis
      proof cases
        case same
        with fr1 show ?thesis by metis
      next
        case written
        with par1 p have "q = p" by simp
        with written al h have "history (vars w' v) = history (vars w v)" by simp
        then show ?thesis by simp
      qed
    qed
    from res leaf' frame show ?thesis by blast
  qed
qed

lemma apply_rels_history_kept:
  "apply_rels env vs rs = Inr vs' \<Longrightarrow>
   \<forall>r\<in>set rs. is_default r \<longrightarrow>
     (\<forall>p. rel_parent r = Some p \<longrightarrow> get_state_variable env p \<noteq> v) \<Longrightarrow>
   history (vs' v) = history (vs v)"
proof (induction rs arbitrary: vs)
  case Nil
  then show ?case by simp
next
  case (Cons r rs)
  show ?case
  proof (cases "is_default r")
    case True
    with Cons.prems(1) obtain p where p: "rel_parent r = Some p"
      by (cases "rel_parent r") (simp_all add: Let_def)
    with True Cons.prems(1)
    have run: "apply_rels env (set_history env (set_parent env vs (oneself r) (Some p)) p (oneself r)) rs
                 = Inr vs'"
      by (simp add: Let_def)
    from Cons.prems(2) True p have "get_state_variable env p \<noteq> v" by simp
    then have "history (set_history env (set_parent env vs (oneself r) (Some p)) p (oneself r) v) =
                 history (vs v)"
      by (simp add: set_history_def set_parent_def)
    with Cons.IH [OF run] Cons.prems(2) show ?thesis by simp
  next
    case False
    with Cons.prems(1)
    have run: "apply_rels env (set_parent env vs (oneself r) (rel_parent r)) rs = Inr vs'"
      by (simp add: Let_def)
    have "history (set_parent env vs (oneself r) (rel_parent r) v) = history (vs v)"
      by (simp add: set_parent_def)
    with Cons.IH [OF run] Cons.prems(2) show ?thesis by simp
  qed
qed

lemma apply_rels_default_seed:
  "apply_rels env vs (pre @ r # post) = Inr vs' \<Longrightarrow> is_default r \<Longrightarrow> rel_parent r = Some p \<Longrightarrow>
   \<forall>r'\<in>set post. is_default r' \<longrightarrow>
     (\<forall>p'. rel_parent r' = Some p' \<longrightarrow> get_state_variable env p' \<noteq> get_state_variable env p) \<Longrightarrow>
   history (vs' (get_state_variable env p)) = Some (oneself r)"
proof (induction pre arbitrary: vs)
  case Nil
  let ?vs1 = "set_history env (set_parent env vs (oneself r) (Some p)) p (oneself r)"
  from Nil have run: "apply_rels env ?vs1 post = Inr vs'"
    by (simp add: Let_def)
  from apply_rels_history_kept [OF run Nil.prems(4)]
  show ?case by (simp add: set_history_def)
next
  case (Cons a pre)
  from Cons.prems(1) obtain vs1 where "apply_rels env vs1 (pre @ r # post) = Inr vs'"
    by (auto simp: Let_def split: if_splits option.splits)
  from Cons.IH [OF this Cons.prems(2,3,4)] show ?case .
qed

text \<open>
  The state change to a target off the current chain completes in the state that the
  histories lead to from the target, as they stand after the call; they differ from
  those before the call at most in variables of parents of states on the old current
  chain (written by the exits) or of the target.
\<close>

lemma change_state_descent:
  assumes wn: "well_nested env (vars w)" and hc: "history_children env (vars w)"
    and st: "stacks_ok (machine w)"
    and xs: "ancestor_chain NEST_MAX env (vars w) (Some (current (machine w))) = Some xs"
    and na: "t \<notin> set xs"
  shows "\<exists>w'. fsm_change_state env w t = Some (Inr w') \<and>
              current (machine w') = history_leaf NEST_MAX env (vars w') t \<and>
              (\<forall>v. history (vars w' v) = history (vars w v) \<or>
                   (\<exists>x q. (x \<in> set xs \<or> x = t) \<and>
                          parent (vars w (get_state_variable env x)) = Some q \<and>
                          v = get_state_variable env q))"
proof -
  from hc have hb: "history_below env (vars w)" by (rule history_children_below)
  from xs have ch: "parent_chain env (vars w) (Some (current (machine w))) xs"
    by (auto dest: ancestor_chain_chain)
  then have "current (machine w) \<in> set xs" by (auto dest: chain_hd)
  with na have ne: "current (machine w) \<noteq> t" by auto
  from cascade_cases [OF wn st ne] na ch obtain ex en common where
    exc: "parent_chain env (vars w) (Some (current (machine w))) (ex @ common)"
    and cas0: "change_state_cascade env w t =
                 Some (Inr (cascade_result env w t ex en (top_of common), t))"
    by (auto dest: chain_unique)
  define w1 where "w1 = cascade_result env w t ex en (top_of common)"
  from cas0 have cas: "change_state_cascade env w t = Some (Inr (w1, t))"
    by (simp add: w1_def)
  from exc ch have "xs = ex @ common" by (auto dest: chain_unique)
  then have sub: "set ex \<subseteq> set xs" by simp
  have fr1: "history (vars w1 v) = history (vars w v) \<or>
             (\<exists>x q. (x \<in> set xs \<or> x = t) \<and>
                    parent (vars w (get_state_variable env x)) = Some q \<and>
                    v = get_state_variable env q)" for v
    using exit_states_history [of env w ex "top_of common" v] sub
    by (auto simp: w1_def)
  from cascade_step [OF wn hb st ne cas]
  have wn1: "well_nested env (vars w1)" and hb1: "history_below env (vars w1)"
    and st1: "stacks_ok (machine w1)" and cur1: "current (machine w1) = t"
    and par1: "\<forall>v. parent (vars w1 v) = parent (vars w v)"
    by simp_all
  show ?thesis
  proof (cases "history (vars w1 (get_state_variable env t))")
    case None
    with cas ne have "fsm_change_state env w t = Some (Inr w1)"
      by (subst fsm_change_state.simps) simp
    moreover from None have "history_leaf NEST_MAX env (vars w1) t = t"
      by (rule history_leaf_None)
    ultimately show ?thesis using cur1 fr1 by auto
  next
    case (Some h)
    from Some cur1
    have h1: "history (vars w1 (get_state_variable env (current (machine w1)))) = Some h"
      by simp
    obtain m where nm: "NEST_MAX = Suc m" by (simp add: NEST_MAX_def numeral_eq_Suc)
    with depth_bounds [OF wn1, of h] have fuel: "NEST_MAX \<le> m + depth env (vars w1) h"
      by simp
    from history_run [OF wn1 hb1 st1 h1 fuel] obtain w' where
      run: "fsm_change_state env w1 h = Some (Inr w')"
      and leaf: "current (machine w') = history_leaf m env (vars w') h"
      and fr: "\<forall>v. history (vars w' v) = history (vars w1 v) \<or>
                  (\<exists>q. parent (vars w1 (get_state_variable env (current (machine w1)))) = Some q \<and>
                       v = get_state_variable env q \<and>
                       history (vars w' v) = Some (current (machine w1)))"
      by blast
    from cas ne Some run have res: "fsm_change_state env w t = Some (Inr w')"
      by (subst fsm_change_state.simps) simp
    have keep: "history (vars w' (get_state_variable env t)) = Some h"
    proof -
      from fr cur1 have "history (vars w' (get_state_variable env t)) =
            history (vars w1 (get_state_variable env t)) \<or>
          (\<exists>q. parent (vars w1 (get_state_variable env t)) = Some q \<and>
               get_state_variable env t = get_state_variable env q)"
        by metis
      with parent_not_alias [OF wn1, of t] Some show ?thesis by metis
    qed
    then have "history_leaf NEST_MAX env (vars w') t = history_leaf m env (vars w') h"
      unfolding nm by simp
    with leaf have leaf': "current (machine w') = history_leaf NEST_MAX env (vars w') t"
      by simp
    have frame: "history (vars w' v) = history (vars w v) \<or>
             (\<exists>x q. (x \<in> set xs \<or> x = t) \<and>
                    parent (vars w (get_state_variable env x)) = Some q \<and>
                    v = get_state_variable env q)" for v
    proof -
      from fr cur1 consider
        (same) "history (vars w' v) = history (vars w1 v)"
        | (written) q where "parent (vars w1 (get_state_variable env t)) = Some q"
            "v = get_state_variable env q"
        by metis
      then show ?thesis
      proof cases
        case same
        with fr1 [of v] show ?thesis by metis
      next
        case written
        with par1 have "parent (vars w (get_state_variable env t)) = Some q" by simp
        with written(2) show ?thesis by blast
      qed
    qed
    from res leaf' frame show ?thesis by blast
  qed
qed


text \<open>
  The exits do not reach the histories on the way down from the target: a state below
  the target, or the target itself when it has a history, keeps its history.
\<close>

lemma chain_member_suffix:
  assumes "parent_chain env vs so xs" and "q \<in> set xs"
  shows "\<exists>pre post. xs = pre @ q # post \<and> parent_chain env vs (Some q) (q # post)"
proof -
  from assms(2) obtain pre post where "xs = pre @ q # post"
    by (auto simp: in_set_conv_decomp)
  with assms(1) show ?thesis
    by (auto intro: chain_suffix)
qed

lemma history_kept_under_target:
  assumes wn: "well_nested env vs" and hc: "history_children env vs"
    and xs: "parent_chain env vs (Some c) xs" and na: "t \<notin> set xs"
    and ss: "parent_chain env vs (Some s) ss" and under: "t \<in> set ss"
    and top: "s = t \<longrightarrow> history (vs (get_state_variable env t)) \<noteq> None"
    and frame: "history (vs' (get_state_variable env s)) = history (vs (get_state_variable env s)) \<or>
      (\<exists>x q. (x \<in> set xs \<or> x = t) \<and> parent (vs (get_state_variable env x)) = Some q \<and>
             get_state_variable env s = get_state_variable env q)"
  shows "history (vs' (get_state_variable env s)) = history (vs (get_state_variable env s))"
proof (rule ccontr)
  assume "history (vs' (get_state_variable env s)) \<noteq> history (vs (get_state_variable env s))"
  with frame obtain x q where x: "x \<in> set xs \<or> x = t"
    and q: "parent (vs (get_state_variable env x)) = Some q"
    and al: "get_state_variable env s = get_state_variable env q"
    by blast
  from wn obtain ss' where "parent_chain env vs (Some s) ss'" and "length ss' \<le> NEST_MAX"
    using well_nested_chain by blast
  with ss have ls: "length ss \<le> NEST_MAX" by (auto dest: chain_unique)
  show False
  proof (cases "x \<in> set xs")
    case False
    with x have xt: "x = t" by simp
    from chain_member_suffix [OF ss under] obtain pre post where
      e: "ss = pre @ t # post" and ct: "parent_chain env vs (Some t) (t # post)"
      by blast
    from ct e ls have "depth env vs t = length (t # post)"
      by (intro depth_chain) simp_all
    moreover from ss ls have "depth env vs s = length ss" by (rule depth_chain)
    ultimately have "depth env vs t \<le> depth env vs s" using e by simp
    moreover from depth_parent [OF wn, of t q] q xt
    have "depth env vs t = Suc (depth env vs q)" by simp
    moreover from al have "depth env vs s = depth env vs q" by (rule depth_alias)
    ultimately show False by simp
  next
    case True
    from chain_member_suffix [OF xs True] obtain pre post where
      e: "xs = pre @ x # post" and cx: "parent_chain env vs (Some x) (x # post)"
      by blast
    from cx q have cq: "parent_chain env vs (Some q) post"
      by (auto dest: chain_tail)
    then obtain post' where pq: "post = q # post'" by (auto dest: chain_hd)
    with e have qin: "q \<in> set xs" by simp
    show False
    proof (cases "s = t")
      case True
      with top obtain h where h: "history (vs (get_state_variable env t)) = Some h" by auto
      with al True have "history (vs (get_state_variable env q)) = Some h" by simp
      with hc h have "parent (vs (get_state_variable env h)) = Some q"
        and "parent (vs (get_state_variable env h)) = Some t"
        unfolding history_children_def by blast+
      then have "q = t" by simp
      with qin na show False by simp
    next
      case False
      from ss obtain rest where sr: "ss = s # rest" by (auto dest: chain_hd)
      with under False have tr: "t \<in> set rest" by simp
      from ss sr have "parent_chain env vs (parent (vs (get_state_variable env s))) rest"
        by (auto dest: chain_tail)
      with al have "parent_chain env vs (parent (vs (get_state_variable env q))) rest"
        by simp
      moreover from cq pq
      have "parent_chain env vs (parent (vs (get_state_variable env q))) post'"
        by (auto dest: chain_tail)
      ultimately have "rest = post'" by (rule chain_unique)
      with tr e pq have "t \<in> set xs" by simp
      with na show False by simp
    qed
  qed
qed

lemma history_leaf_kept:
  assumes wn: "well_nested env vs" and hc: "history_children env vs"
    and xs: "parent_chain env vs (Some c) xs" and na: "t \<notin> set xs"
    and frame: "\<forall>v. history (vs' v) = history (vs v) \<or>
      (\<exists>x q. (x \<in> set xs \<or> x = t) \<and> parent (vs (get_state_variable env x)) = Some q \<and>
             v = get_state_variable env q)"
  shows "parent_chain env vs (Some s) ss \<Longrightarrow> t \<in> set ss \<Longrightarrow>
         (s = t \<longrightarrow> history (vs (get_state_variable env t)) \<noteq> None) \<Longrightarrow>
         history_leaf n env vs' s = history_leaf n env vs s"
proof (induction n arbitrary: s ss)
  case 0
  then show ?case by simp
next
  case (Suc n)
  from frame
  have "history (vs' (get_state_variable env s)) = history (vs (get_state_variable env s)) \<or>
      (\<exists>x q. (x \<in> set xs \<or> x = t) \<and> parent (vs (get_state_variable env x)) = Some q \<and>
             get_state_variable env s = get_state_variable env q)"
    by blast
  with wn hc xs na Suc.prems
  have kept: "history (vs' (get_state_variable env s)) = history (vs (get_state_variable env s))"
    by (rule history_kept_under_target)
  show ?case
  proof (cases "history (vs (get_state_variable env s))")
    case None
    with kept show ?thesis by simp
  next
    case (Some h)
    with hc have "parent (vs (get_state_variable env h)) = Some s"
      unfolding history_children_def by blast
    with Suc.prems(1) have ch: "parent_chain env vs (Some h) (h # ss)"
      by (auto intro: chain_step)
    then have "h \<notin> set ss" by (rule chain_not_in_tail)
    with Suc.prems(2) have "h \<noteq> t" by auto
    with ch Suc.prems(2)
    have "history_leaf n env vs' h = history_leaf n env vs h"
      by (intro Suc.IH [where ss = "h # ss"]) simp_all
    with kept Some show ?thesis by simp
  qed
qed




section \<open>Reading the data of a state\<close>

text \<open>
  No function of the engine writes a data slot: construction and every dispatch leave
  the data of every variable, the shared empty one included, as they found it.
\<close>

lemma exit_if_can_be_data [simp]:
  "data (vars (exit_if_can_be env w s c) v) = data (vars w v)"
  by (simp add: exit_if_can_be_def set_history_def Let_def split: option.splits)

lemma exit_loop_data_aux:
  assumes "exit_loop env w so anc = Some r"
  shows "\<forall>w'. r = Inr w' \<longrightarrow> data (vars w' v) = data (vars w v)"
proof (rule exit_loop.raw_induct
         [where P = "\<lambda>env w so anc r. \<forall>w'. r = Inr w' \<longrightarrow> data (vars w' v) = data (vars w v)",
          OF _ assms])
  fix loop env w src_state ancestor r
  assume IH: "\<And>env w so anc y. loop env w so anc = Some y \<Longrightarrow>
                \<forall>w'. y = Inr w' \<longrightarrow> data (vars w' v) = data (vars w v)"
    and body: "(if src_state = ancestor then Some (Inr w)
      else case src_state of None \<Rightarrow> Some (Inl (Assert_src_state w))
           | Some s \<Rightarrow>
               let w1 = exit_if_can_be env w s
                         (parent (vars w (get_state_variable env s)) = ancestor)
               in loop env w1 (parent (vars w1 (get_state_variable env s))) ancestor) = Some r"
  show "\<forall>w'. r = Inr w' \<longrightarrow> data (vars w' v) = data (vars w v)"
  proof (cases "src_state = ancestor")
    case True
    with body show ?thesis by auto
  next
    case False
    show ?thesis
    proof (cases src_state)
      case None
      with body False show ?thesis by auto
    next
      case (Some s)
      with body False IH [of env "exit_if_can_be env w s
            (parent (vars w (get_state_variable env s)) = ancestor)" _ ancestor r]
      show ?thesis by (simp add: Let_def)
    qed
  qed
qed

lemma exit_loop_data:
  "exit_loop env w so anc = Some (Inr w') \<Longrightarrow> data (vars w' v) = data (vars w v)"
  using exit_loop_data_aux by blast

lemma entry_loop_vars:
  "entry_loop env w d c stk = (w', d', stk') \<Longrightarrow> vars w' = vars w"
proof (induction env w d c stk rule: entry_loop.induct)
  case (1 env w dest_state count dest_ancs)
  from "1.prems" show ?case
    by (subst (asm) entry_loop.simps)
       (auto simp: Let_def split: prod.splits if_splits dest!: "1.IH" [rotated -1])
qed

lemma change_state_cascade_data:
  "change_state_cascade env w t = Some (Inr (w', d)) \<Longrightarrow> data (vars w' v) = data (vars w v)"
  by (auto simp: change_state_cascade_def Let_def
           split: option.splits sum.splits prod.splits
           dest!: exit_loop_data [where v = v] entry_loop_vars)

lemma fsm_change_state_data_aux:
  assumes "fsm_change_state env w t = Some r"
  shows "\<forall>w'. r = Inr w' \<longrightarrow> data (vars w' v) = data (vars w v)"
proof (rule fsm_change_state.raw_induct
         [where P = "\<lambda>env w t r. \<forall>w'. r = Inr w' \<longrightarrow> data (vars w' v) = data (vars w v)",
          OF _ assms])
  fix change env w new_state r
  assume IH: "\<And>env w t y. change env w t = Some y \<Longrightarrow>
                \<forall>w'. y = Inr w' \<longrightarrow> data (vars w' v) = data (vars w v)"
    and body: "(if current (machine w) = new_state
      then Some (Inr (entry_if_can_be env
                   (exit_if_can_be env w (current (machine w)) True) new_state True))
      else case change_state_cascade env w new_state of None \<Rightarrow> None
           | Some (Inl a) \<Rightarrow> Some (Inl a)
           | Some (Inr (w', dest_state)) \<Rightarrow>
               case history (vars w' (get_state_variable env dest_state)) of
               None \<Rightarrow> Some (Inr w') | Some h \<Rightarrow> change env w' h) = Some r"
  show "\<forall>w'. r = Inr w' \<longrightarrow> data (vars w' v) = data (vars w v)"
  proof (cases "current (machine w) = new_state")
    case True
    with body show ?thesis by (auto simp: entry_if_can_be_def split: option.splits)
  next
    case False
    with body obtain res where c: "change_state_cascade env w new_state = Some res"
      by (cases "change_state_cascade env w new_state") auto
    show ?thesis
    proof (cases res)
      case (Inl a)
      with body False c show ?thesis by auto
    next
      case (Inr p)
      obtain w1 d where p: "p = (w1, d)" by (cases p)
      with c Inr have c': "change_state_cascade env w new_state = Some (Inr (w1, d))" by simp
      then have keep: "data (vars w1 v) = data (vars w v)"
        by (rule change_state_cascade_data)
      show ?thesis
      proof (cases "history (vars w1 (get_state_variable env d))")
        case None
        with body False c' keep show ?thesis by auto
      next
        case (Some h)
        with body False c' have "change env w1 h = Some r" by simp
        from IH [OF this] keep show ?thesis by simp
      qed
    qed
  qed
qed

lemma fsm_change_state_data:
  "fsm_change_state env w t = Some (Inr w') \<Longrightarrow> data (vars w' v) = data (vars w v)"
  using fsm_change_state_data_aux by blast

lemma transit_loop_data:
  "transit_loop env w rows s e = Some (Inr (w', b)) \<Longrightarrow> data (vars w' v) = data (vars w v)"
proof (induction rows)
  case Nil
  then show ?case by simp
next
  case (Cons corr rows)
  show ?case
  proof (cases "row_fires w s e corr")
    case False
    with Cons show ?thesis
      by (auto simp: row_fires_def split: if_splits)
  next
    case True
    with Cons.prems have "perform_row env w corr = Some (Inr (w', b))"
      by (simp add: transit_loop_find)
    then show ?thesis
      by (auto simp: perform_row_def Let_def split: option.splits sum.splits
               dest!: fsm_change_state_data [where v = v])
  qed
qed

lemma fsm_state_transit_data:
  "fsm_state_transit env w s e = Some (Inr (w', b)) \<Longrightarrow> data (vars w' v) = data (vars w v)"
  by (auto simp: fsm_state_transit_def dest: transit_loop_data)

lemma bubble_loop_data_aux:
  assumes "bubble_loop env w so e = Some r"
  shows "\<forall>w'. r = Inr w' \<longrightarrow> data (vars w' v) = data (vars w v)"
proof (rule bubble_loop.raw_induct
         [where P = "\<lambda>env w so e r. \<forall>w'. r = Inr w' \<longrightarrow> data (vars w' v) = data (vars w v)",
          OF _ assms])
  fix loop env w state ev r
  assume IH: "\<And>env w so e y. loop env w so e = Some y \<Longrightarrow>
                \<forall>w'. y = Inr w' \<longrightarrow> data (vars w' v) = data (vars w v)"
    and body: "(case state of None \<Rightarrow> Some (Inr w)
      | Some s \<Rightarrow>
          case fsm_state_transit env w s ev of None \<Rightarrow> None
          | Some (Inl a) \<Rightarrow> Some (Inl a)
          | Some (Inr (w', matched)) \<Rightarrow>
              if matched then Some (Inr w')
              else loop env w' (parent (vars w' (get_state_variable env s))) ev) = Some r"
  show "\<forall>w'. r = Inr w' \<longrightarrow> data (vars w' v) = data (vars w v)"
  proof (cases state)
    case None
    with body show ?thesis by auto
  next
    case (Some s)
    with body obtain res where t: "fsm_state_transit env w s ev = Some res"
      by (cases "fsm_state_transit env w s ev") auto
    show ?thesis
    proof (cases res)
      case (Inl a)
      with body Some t show ?thesis by auto
    next
      case (Inr p)
      obtain w1 matched where p: "p = (w1, matched)" by (cases p)
      with t Inr have t': "fsm_state_transit env w s ev = Some (Inr (w1, matched))" by simp
      then have keep: "data (vars w1 v) = data (vars w v)"
        by (rule fsm_state_transit_data)
      show ?thesis
      proof (cases matched)
        case True
        with body Some t' keep show ?thesis by auto
      next
        case False
        with body Some t'
        have "loop env w1 (parent (vars w1 (get_state_variable env s))) ev = Some r"
          by simp
        from IH [OF this] keep show ?thesis by simp
      qed
    qed
  qed
qed

lemma fsm_transition_data:
  "fsm_transition env (Some w) ev = Some (Inr (Some w')) \<Longrightarrow> data (vars w' v) = data (vars w v)"
  by (auto simp: fsm_transition_def split: option.splits sum.splits
           dest!: fsm_state_transit_data [where v = v] bubble_loop_data_aux [where v = v])

lemma apply_rels_data:
  "apply_rels env vs rs = Inr vs' \<Longrightarrow> data (vs' v) = data (vs v)"
proof (induction rs arbitrary: vs)
  case Nil
  then show ?case by simp
next
  case (Cons r rs)
  from Cons.prems show ?case
    by (auto simp: Let_def set_parent_def set_history_def
             split: if_splits option.splits dest!: Cons.IH)
qed

lemma fsm_init_data:
  "fsm_init env rels tab al vs tr = Some (Inr out) \<Longrightarrow> returned out = Some w' \<Longrightarrow>
   data (vars w' v) = data (vs v)"
  by (auto simp: fsm_init_def Let_def split: option.splits sum.splits if_splits
           dest!: fsm_state_transit_data [where v = v] apply_rels_data [where v = v])

text \<open>
  C10. For a state without a variable (the shared empty variable has no data: it is
  initialised so, and by the lemmas above the engine leaves every data slot as it is)
  and for a state whose own variable has no data, \<open>fsm_get_state_data\<close> returns NULL
  and stores nothing in errno. For the NULL state it returns NULL as well, with errno
  EINVAL: the returned pointer alone does not tell the two apart.
\<close>

theorem fsm_get_state_data_null_without_error:
  "(variable (env s) = None \<and> data (vs null_obj) = None \<longrightarrow>
      fsm_get_state_data env vs (Some s) = (None, None)) \<and>
   (variable (env s) = Some v \<and> data (vs (var v)) = None \<longrightarrow>
      fsm_get_state_data env vs (Some s) = (None, None)) \<and>
   fsm_get_state_data env vs None = (None, Some EINVAL)"
  by (simp add: fsm_get_state_data_def get_state_variable_simps)

theorem fsm_get_state_data_null_without_error_witness:
  "fsm_get_state_data ex_env ex_vars (Some state_start) = (None, None) \<and>
   fsm_get_state_data ex_env ex_vars (Some 2) = (None, None) \<and>
   fsm_get_state_data ex_env ex_vars None = (None, Some EINVAL)"
  using fsm_get_state_data_null_without_error [of ex_env state_start ex_vars]
        fsm_get_state_data_null_without_error [of ex_env 2 ex_vars 2]
  by (simp add: ex_env_def ex_vars_def state_start_def)

end
